theory Spec2Isabelle
  imports Complex_Main "HOL-Library.Multiset"
begin

section \<open>JavaScript numbers\<close>

text \<open>
  Every number of the application is a JavaScript \<open>number\<close>, an IEEE 754 binary64 value:
  a finite number, one of the two zeros, one of the two infinities, or \<open>NaN\<close>. \<open>Fin x\<close> is
  the finite number \<open>x\<close> (\<open>Fin 0\<close> is \<open>+0\<close>) and \<open>NZero\<close> is \<open>-0\<close>. Arithmetic computes the
  exact result and rounds it to the nearest binary64 number, ties to even, with gradual
  underflow and overflow to an infinity.
\<close>

datatype jsnum = Fin real | NZero | PInf | NInf | NaN

text \<open>Powers of two with an integer exponent.\<close>

definition p2 :: "int \<Rightarrow> real" where
  "p2 e = (if 0 \<le> e then 2 ^ nat e else 1 / 2 ^ nat (- e))"

text \<open>
  The binary exponent of a real that is not zero, kept inside the range of binary64:
  the \<open>e\<close> with \<open>2^e \<le> |x| < 2^(e+1)\<close>, at least \<open>-1022\<close> (below it the numbers are
  subnormal) and at most \<open>1023\<close>. It is found by halving or doubling \<open>|x|\<close>.
\<close>

function expo_up :: "real \<Rightarrow> int \<Rightarrow> int" where
  "expo_up x e = (if x < 2 \<or> 1023 \<le> e then e else expo_up (x / 2) (e + 1))"
  by pat_completeness auto
termination
  by (relation "measure (\<lambda>(x, e). nat (1023 - e))") auto

function expo_down :: "real \<Rightarrow> int \<Rightarrow> int" where
  "expo_down x e = (if 1 \<le> x \<or> e \<le> - 1022 then e else expo_down (x * 2) (e - 1))"
  by pat_completeness auto
termination
  by (relation "measure (\<lambda>(x, e). nat (e + 1022))") auto

declare expo_up.simps [simp del]

declare expo_down.simps [simp del]

definition expo :: "real \<Rightarrow> int" where
  "expo x = (if 1 \<le> \<bar>x\<bar> then expo_up \<bar>x\<bar> 0 else expo_down \<bar>x\<bar> 0)"

text \<open>The distance between neighbouring binary64 numbers at \<open>x\<close>: 52 fraction bits.\<close>

definition ulp :: "real \<Rightarrow> real" where
  "ulp x = p2 (expo x - 52)"

text \<open>Rounding to the nearest integer, ties to the even one.\<close>

definition rne_from :: "int \<Rightarrow> real \<Rightarrow> int" where
  "rne_from f d = (if d < 1 / 2 then f else if 1 / 2 < d then f + 1
                   else if even f then f else f + 1)"

definition rne :: "real \<Rightarrow> int" where
  "rne y = rne_from \<lfloor>y\<rfloor> (y - of_int \<lfloor>y\<rfloor>)"

text \<open>
  The binary64 number for an exact result \<open>x\<close>: the nearest multiple of \<open>ulp x\<close>; an
  infinity when that reaches \<open>2^1024\<close>; a zero with the sign of \<open>x\<close> when it is 0. A
  decimal literal of the source, such as \<open>0.9\<close>, denotes \<open>fl 0.9\<close>.
\<close>

definition pack :: "real \<Rightarrow> real \<Rightarrow> jsnum" where
  "pack x y = (if p2 1024 \<le> \<bar>y\<bar> then (if 0 < x then PInf else NInf)
               else if y = 0 then (if x < 0 then NZero else Fin 0)
               else Fin y)"

definition round_to :: "real \<Rightarrow> real \<Rightarrow> jsnum" where
  "round_to u x = pack x (of_int (rne (x / u)) * u)"

definition fl :: "real \<Rightarrow> jsnum" where
  "fl x = (if x = 0 then Fin 0 else round_to (ulp x) x)"

text \<open>
  The reals that are finite binary64 numbers: rounding leaves them as they are. Every
  finite number that the program reads or computes is one of them.
\<close>

definition binary64 :: "real \<Rightarrow> bool" where
  "binary64 x = (fl x = Fin x)"

text \<open>A JavaScript number as the engine holds it: its finite value is a binary64 number.\<close>

fun representable :: "jsnum \<Rightarrow> bool" where
  "representable (Fin x) = binary64 x"
| "representable _ = True"

text \<open>The sign bit, the two zeros, the two infinities and the value of a number.\<close>

fun negative :: "jsnum \<Rightarrow> bool" where
  "negative (Fin a) = (a < 0)"
| "negative NZero = True"
| "negative NInf = True"
| "negative _ = False"

fun is_zero :: "jsnum \<Rightarrow> bool" where
  "is_zero (Fin a) = (a = 0)"
| "is_zero NZero = True"
| "is_zero _ = False"

fun is_inf :: "jsnum \<Rightarrow> bool" where
  "is_inf PInf = True"
| "is_inf NInf = True"
| "is_inf _ = False"

fun isFinite :: "jsnum \<Rightarrow> bool" where
  "isFinite (Fin a) = True"
| "isFinite NZero = True"
| "isFinite _ = False"

fun rv :: "jsnum \<Rightarrow> real" where
  "rv (Fin a) = a"
| "rv _ = 0"

definition zero_of :: "bool \<Rightarrow> jsnum" where
  "zero_of neg = (if neg then NZero else Fin 0)"

definition inf_of :: "bool \<Rightarrow> jsnum" where
  "inf_of neg = (if neg then NInf else PInf)"

instantiation jsnum :: "{plus,uminus,minus,times,inverse,ord}"
begin

definition plus_jsnum :: "jsnum \<Rightarrow> jsnum \<Rightarrow> jsnum" where
  "plus_jsnum a b =
     (if a = NaN \<or> b = NaN then NaN
      else if is_inf a then (if is_inf b \<and> a \<noteq> b then NaN else a)
      else if is_inf b then b
      else if is_zero a then (if is_zero b then zero_of (negative a \<and> negative b) else b)
      else if is_zero b then a
      else if rv a + rv b = 0 then Fin 0
      else fl (rv a + rv b))"

fun uminus_jsnum :: "jsnum \<Rightarrow> jsnum" where
  "uminus_jsnum (Fin a) = (if a = 0 then NZero else Fin (- a))"
| "uminus_jsnum NZero = Fin 0"
| "uminus_jsnum PInf = NInf"
| "uminus_jsnum NInf = PInf"
| "uminus_jsnum NaN = NaN"

definition minus_jsnum :: "jsnum \<Rightarrow> jsnum \<Rightarrow> jsnum" where
  "minus_jsnum a b = a + (- b)"

definition times_jsnum :: "jsnum \<Rightarrow> jsnum \<Rightarrow> jsnum" where
  "times_jsnum a b =
     (if a = NaN \<or> b = NaN then NaN
      else if (is_zero a \<and> is_inf b) \<or> (is_inf a \<and> is_zero b) then NaN
      else if is_inf a \<or> is_inf b then inf_of (negative a \<noteq> negative b)
      else if is_zero a \<or> is_zero b then zero_of (negative a \<noteq> negative b)
      else fl (rv a * rv b))"

definition divide_jsnum :: "jsnum \<Rightarrow> jsnum \<Rightarrow> jsnum" where
  "divide_jsnum a b =
     (if a = NaN \<or> b = NaN then NaN
      else if (is_zero a \<and> is_zero b) \<or> (is_inf a \<and> is_inf b) then NaN
      else if is_inf a \<or> is_zero b then inf_of (negative a \<noteq> negative b)
      else if is_zero a \<or> is_inf b then zero_of (negative a \<noteq> negative b)
      else fl (rv a / rv b))"

definition inverse_jsnum :: "jsnum \<Rightarrow> jsnum" where
  "inverse_jsnum a =
     (if a = NaN then NaN
      else if is_zero a then inf_of (negative a)
      else if is_inf a then zero_of (negative a)
      else fl (1 / rv a))"

definition less_jsnum :: "jsnum \<Rightarrow> jsnum \<Rightarrow> bool" where
  "less_jsnum a b =
     (if a = NaN \<or> b = NaN then False
      else if a = NInf then b \<noteq> NInf
      else if b = PInf then a \<noteq> PInf
      else if a = PInf \<or> b = NInf then False
      else rv a < rv b)"

definition less_eq_jsnum :: "jsnum \<Rightarrow> jsnum \<Rightarrow> bool" where
  "less_eq_jsnum a b =
     (if a = NaN \<or> b = NaN then False
      else if a = NInf \<or> b = PInf then True
      else if a = PInf \<or> b = NInf then False
      else rv a \<le> rv b)"

instance ..

end

text \<open>
  The library functions the code calls. \<open>Math.round\<close> rounds to the nearest integer with
  ties towards \<open>+\<infinity>\<close>, without a rounding error, and gives \<open>-0\<close> for a number from
  \<open>-0.5\<close> up to \<open>-0\<close>; \<open>Math.max\<close> is \<open>NaN\<close> as soon as one argument is, and takes \<open>+0\<close>
  for larger than \<open>-0\<close>. ECMAScript leaves the precision of \<open>Math.log\<close>, \<open>Math.sqrt\<close> and
  \<open>Math.cos\<close> to the engine: the model takes the exact value of a finite result, and the
  arithmetic that follows rounds. \<open>Math.PI\<close> is the binary64 number nearest to \<open>\<pi>\<close>.
\<close>

fun Math_log :: "jsnum \<Rightarrow> jsnum" where
  "Math_log (Fin x) = (if x > 0 then Fin (ln x) else if x = 0 then NInf else NaN)"
| "Math_log NZero = NInf"
| "Math_log PInf = PInf"
| "Math_log _ = NaN"

fun Math_sqrt :: "jsnum \<Rightarrow> jsnum" where
  "Math_sqrt (Fin x) = (if x \<ge> 0 then Fin (sqrt x) else NaN)"
| "Math_sqrt NZero = NZero"
| "Math_sqrt PInf = PInf"
| "Math_sqrt _ = NaN"

fun Math_cos :: "jsnum \<Rightarrow> jsnum" where
  "Math_cos (Fin x) = Fin (cos x)"
| "Math_cos NZero = Fin 1"
| "Math_cos _ = NaN"

fun Math_round :: "jsnum \<Rightarrow> jsnum" where
  "Math_round (Fin x) = (if - (1 / 2) \<le> x \<and> x < 0 then NZero else Fin (of_int (round x)))"
| "Math_round a = a"

definition Math_max :: "jsnum \<Rightarrow> jsnum \<Rightarrow> jsnum" where
  "Math_max a b =
     (if a = NaN \<or> b = NaN then NaN
      else if a < b then b else if b < a then a
      else if a = NZero then b else a)"

definition Math_PI :: jsnum where
  "Math_PI = Fin (884279719003555 / 281474976710656)"

section \<open>The Guyton-Klinger withdrawal simulation\<close>

record WithdrawalParams =
  initialRate :: jsnum
  upperGuardrail :: jsnum
  lowerGuardrail :: jsnum
  expectedAPY :: jsnum
  volatility :: jsnum
  simulations :: nat
  wyears :: nat

datatype guardrail = Upper | Lower

record WithdrawalResult =
  wyear :: nat
  portfolioValue :: jsnum
  withdrawalAmount :: jsnum
  withdrawalRate :: jsnum
  returnRate :: jsnum
  inflationAdjusted :: bool
  guardrailTriggered :: "guardrail option"

text \<open>
  \<open>generateRandomReturn\<close> calls \<open>Math.random()\<close> twice. The two draws are an argument of
  the model: \<open>Math.random()\<close> returns a finite number \<open>u\<close> with \<open>0 \<le> u < 1\<close>, so a draw
  is a real and the value \<open>0\<close> is one the code can receive.
\<close>

definition generateRandomReturn :: "jsnum \<Rightarrow> jsnum \<Rightarrow> real \<times> real \<Rightarrow> jsnum" where
  "generateRandomReturn mean stdDev draw =
     (let u1 = Fin (fst draw);
          u2 = Fin (snd draw);
          z = Math_sqrt (Fin (- 2) * Math_log u1) * Math_cos (Fin 2 * Math_PI * u2)
      in mean + z * stdDev)"

text \<open>
  One pass through the body of the loop of \<open>runGKSimulation\<close>: from the balance and the
  withdrawal on entry to the year, the record pushed for the year, the balance after
  growth and the withdrawal of the next year.
\<close>

definition gk_year ::
  "WithdrawalParams \<Rightarrow> jsnum \<Rightarrow> nat \<Rightarrow> real \<times> real \<Rightarrow> jsnum \<Rightarrow> jsnum
     \<Rightarrow> WithdrawalResult \<times> jsnum \<times> jsnum" where
  "gk_year params initialWithdrawalRate yr draw portfolioValue0 withdrawalAmount0 =
     (let portfolioValue1 = portfolioValue0 - withdrawalAmount0;
          randomReturn = generateRandomReturn (expectedAPY params / Fin 100)
                           (volatility params / Fin 100) draw;
          previousValue = portfolioValue1;
          portfolioValue2 = portfolioValue1 * (Fin 1 + randomReturn);
          portfolioGained = (portfolioValue2 > previousValue);
          currentRate = withdrawalAmount0 / portfolioValue2;
          (nextWithdrawal, triggered, adjusted) =
            (if currentRate > initialWithdrawalRate * (Fin 1 + upperGuardrail params / Fin 100)
             then (withdrawalAmount0 * fl 0.9, Some Upper, False)
             else if currentRate < initialWithdrawalRate * (Fin 1 - lowerGuardrail params / Fin 100)
             then (withdrawalAmount0 * fl 1.1, Some Lower, False)
             else if portfolioGained
             then (withdrawalAmount0 * fl 1.03, None, True)
             else (withdrawalAmount0, None, False))
      in (\<lparr> wyear = yr,
             portfolioValue = Math_max (Fin 0) portfolioValue2,
             withdrawalAmount = withdrawalAmount0,
             withdrawalRate = currentRate * Fin 100,
             returnRate = randomReturn * Fin 100,
             inflationAdjusted = adjusted,
             guardrailTriggered = triggered \<rparr>,
          portfolioValue2, nextWithdrawal))"

text \<open>
  The loop \<open>for (let year = 1; year <= years; year++)\<close> with its \<open>break\<close>, for a horizon
  of a whole number of years. The draws of year \<open>y\<close> are \<open>draws y\<close>.
\<close>

function gk_loop ::
  "WithdrawalParams \<Rightarrow> jsnum \<Rightarrow> nat \<Rightarrow> (nat \<Rightarrow> real \<times> real) \<Rightarrow> nat \<Rightarrow> jsnum \<Rightarrow> jsnum
     \<Rightarrow> WithdrawalResult list" where
  "gk_loop params initialWithdrawalRate years draws yr pv w =
     (if yr \<le> years
      then (case gk_year params initialWithdrawalRate yr (draws yr) pv w of
              (res, pv', w') \<Rightarrow>
                res # (if pv' \<le> Fin 0 then []
                       else gk_loop params initialWithdrawalRate years draws (Suc yr) pv' w'))
      else [])"
  by pat_completeness auto
termination
  by (relation "measure (\<lambda>(params, iwr, years, draws, yr, pv, w). Suc years - yr)") auto

declare gk_loop.simps [simp del]

definition runGKSimulation ::
  "jsnum \<Rightarrow> WithdrawalParams \<Rightarrow> nat \<Rightarrow> (nat \<Rightarrow> real \<times> real) \<Rightarrow> WithdrawalResult list" where
  "runGKSimulation startingValue params years draws =
     gk_loop params (initialRate params / Fin 100) years draws 1
       startingValue (startingValue * (initialRate params / Fin 100))"

text \<open>
  The loop variables \<open>(portfolioValue, withdrawalAmount)\<close> on entry to year \<open>k + 1\<close> of a
  run that has not stopped before: the body of the loop applied \<open>k\<close> times. It names the
  balance and the withdrawal that the statements about a year of a run refer to.
\<close>

primrec gk_state ::
  "jsnum \<Rightarrow> WithdrawalParams \<Rightarrow> (nat \<Rightarrow> real \<times> real) \<Rightarrow> nat \<Rightarrow> jsnum \<times> jsnum" where
  "gk_state startingValue params draws 0 =
     (startingValue, startingValue * (initialRate params / Fin 100))"
| "gk_state startingValue params draws (Suc k) =
     (case gk_state startingValue params draws k of
        (pv, w) \<Rightarrow>
          snd (gk_year params (initialRate params / Fin 100) (Suc k) (draws (Suc k)) pv w))"

section \<open>Statistics over a batch of runs\<close>

text \<open>
  \<open>sim[sim.length - 1]?.portfolioValue || 0\<close>: the value of the last record, and \<open>0\<close>
  when the run is empty or the value is falsy (\<open>0\<close> or \<open>NaN\<close>).
\<close>

definition truthy :: "jsnum \<Rightarrow> bool" where
  "truthy a = (a \<noteq> NaN \<and> a \<noteq> Fin 0 \<and> a \<noteq> NZero)"

definition finalValue :: "WithdrawalResult list \<Rightarrow> jsnum" where
  "finalValue sim =
     (case sim of
        [] \<Rightarrow> Fin 0
      | _ \<Rightarrow> (if truthy (portfolioValue (last sim)) then portfolioValue (last sim) else Fin 0))"

text \<open>
  \<open>Array.prototype.sort\<close> with a comparator: \<open>a\<close> goes after \<open>b\<close> when the comparator
  returns a positive number, and a comparator result of \<open>NaN\<close> counts as \<open>0\<close>. The sort is
  stable; a stable insertion sort stands for the engine's algorithm.
\<close>

fun js_insert :: "(jsnum \<Rightarrow> jsnum \<Rightarrow> jsnum) \<Rightarrow> jsnum \<Rightarrow> jsnum list \<Rightarrow> jsnum list" where
  "js_insert cmp x [] = [x]"
| "js_insert cmp x (y # ys) =
     (if cmp x y > Fin 0 then y # js_insert cmp x ys else x # y # ys)"

definition js_sort :: "(jsnum \<Rightarrow> jsnum \<Rightarrow> jsnum) \<Rightarrow> jsnum list \<Rightarrow> jsnum list" where
  "js_sort cmp xs = foldr (js_insert cmp) xs []"

text \<open>Reading an array at an index: \<open>undefined\<close> (here \<open>None\<close>) outside the array.\<close>

definition js_index :: "'a list \<Rightarrow> nat \<Rightarrow> 'a option" where
  "js_index xs i = (if i < length xs then Some (xs ! i) else None)"

definition calculateSuccessRate :: "WithdrawalResult list list \<Rightarrow> jsnum" where
  "calculateSuccessRate sims =
     (let successful = length (filter (\<lambda>sim. case sim of [] \<Rightarrow> False
                                   | _ \<Rightarrow> portfolioValue (last sim) > Fin 0) sims)
      in Math_round ((Fin (real successful) / Fin (real (length sims))) * Fin 100))"

text \<open>The array \<open>finalValues\<close> of \<open>calculateMedianFinal\<close>, and the function.\<close>

definition finalValues :: "WithdrawalResult list list \<Rightarrow> jsnum list" where
  "finalValues sims = js_sort (\<lambda>a b. a - b) (map finalValue sims)"

definition calculateMedianFinal :: "WithdrawalResult list list \<Rightarrow> jsnum option" where
  "calculateMedianFinal sims =
     js_index (finalValues sims) (nat \<lfloor>real (length (finalValues sims)) / 2\<rfloor>)"

text \<open>
  The words of the specification for the statistics: a run counts as successful when its
  last recorded year has a positive balance; of the two middle positions of a sorted array
  of even length \<open>n\<close>, the lower median is the one at \<open>n / 2 - 1\<close> and the upper median
  the one at \<open>n / 2\<close> (for odd \<open>n\<close> both are the middle position).
\<close>

definition last_year_positive :: "WithdrawalResult list \<Rightarrow> bool" where
  "last_year_positive sim = (sim \<noteq> [] \<and> portfolioValue (last sim) > Fin 0)"

definition lower_median_index :: "nat \<Rightarrow> nat" where
  "lower_median_index n = (n - 1) div 2"

definition upper_median_index :: "nat \<Rightarrow> nat" where
  "upper_median_index n = n div 2"

section \<open>The compound growth projection\<close>

record InvestmentTarget =
  target_id :: string
  target_name :: string
  monthlyAmount :: jsnum
  returnRate :: jsnum

record ProjectionParams =
  initialReturnRate :: jsnum
  years :: nat
  targets :: "InvestmentTarget list"

record YearlyResult =
  year :: nat
  principal :: jsnum
  interest :: jsnum
  total :: jsnum

text \<open>
  The callback of \<open>projection.targets.forEach\<close>, on the two variables it assigns:
  \<open>targetValues\<close> and \<open>principalNewTotal\<close>. \<open>targetValues\<close> has one entry for each target,
  so the index is always inside the array.
\<close>

definition grow_target ::
  "InvestmentTarget \<Rightarrow> nat \<Rightarrow> jsnum list \<times> jsnum \<Rightarrow> jsnum list \<times> jsnum" where
  "grow_target target idx s =
     (case s of (targetValues, principalNewTotal) \<Rightarrow>
        (let monthlyRate = returnRate target / Fin 100 / Fin 12;
             targetValues1 = targetValues[idx := targetValues ! idx + monthlyAmount target];
             principalNewTotal1 = principalNewTotal + monthlyAmount target;
             targetValues2 = targetValues1[idx := targetValues1 ! idx * (Fin 1 + monthlyRate)]
         in (targetValues2, principalNewTotal1)))"

fun forEach_target ::
  "InvestmentTarget list \<Rightarrow> nat \<Rightarrow> jsnum list \<times> jsnum \<Rightarrow> jsnum list \<times> jsnum" where
  "forEach_target [] idx s = s"
| "forEach_target (target # rest) idx s = forEach_target rest (Suc idx) (grow_target target idx s)"

text \<open>One month: the state is \<open>(valueFromInitial, targetValues, principalNewTotal)\<close>.\<close>

definition grow_month ::
  "ProjectionParams \<Rightarrow> jsnum \<times> jsnum list \<times> jsnum \<Rightarrow> jsnum \<times> jsnum list \<times> jsnum" where
  "grow_month projection s =
     (case s of (valueFromInitial, targetValues, principalNewTotal) \<Rightarrow>
        (let monthlyRateInitial = initialReturnRate projection / Fin 100 / Fin 12
         in (valueFromInitial * (Fin 1 + monthlyRateInitial),
             forEach_target (targets projection) 0 (targetValues, principalNewTotal))))"

text \<open>The inner loop \<open>for (let m = 0; m < 12; m++)\<close>, counted by the months left.\<close>

fun month_loop ::
  "ProjectionParams \<Rightarrow> nat \<Rightarrow> jsnum \<times> jsnum list \<times> jsnum \<Rightarrow> jsnum \<times> jsnum list \<times> jsnum" where
  "month_loop projection 0 s = s"
| "month_loop projection (Suc m) s = month_loop projection m (grow_month projection s)"

definition snapshot :: "jsnum \<Rightarrow> nat \<Rightarrow> jsnum \<times> jsnum list \<times> jsnum \<Rightarrow> YearlyResult" where
  "snapshot principalInitial y s =
     (case s of (valueFromInitial, targetValues, principalNewTotal) \<Rightarrow>
        (let totalNewValue = foldl (+) (Fin 0) targetValues;
             totalValue = valueFromInitial + totalNewValue;
             totalPrincipal = principalInitial + principalNewTotal
         in \<lparr> year = y,
              principal = Math_round totalPrincipal,
              interest = Math_round (totalValue - totalPrincipal),
              total = Math_round totalValue \<rparr>))"

text \<open>The outer loop \<open>for (let y = 1; y <= projection.years; y++)\<close>.\<close>

function year_loop ::
  "ProjectionParams \<Rightarrow> jsnum \<Rightarrow> nat \<Rightarrow> jsnum \<times> jsnum list \<times> jsnum \<Rightarrow> YearlyResult list" where
  "year_loop projection principalInitial y s =
     (if y \<le> years projection
      then (let s' = month_loop projection 12 s
            in snapshot principalInitial y s'
               # year_loop projection principalInitial (Suc y) s')
      else [])"
  by pat_completeness auto
termination
  by (relation "measure (\<lambda>(projection, principalInitial, y, s). Suc (years projection) - y)") auto

declare year_loop.simps [simp del]

definition projectionData :: "jsnum \<Rightarrow> ProjectionParams \<Rightarrow> YearlyResult list" where
  "projectionData currentTotalValue projection =
     \<lparr> year = 0,
       principal = Math_round currentTotalValue,
       interest = Fin 0,
       total = Math_round currentTotalValue \<rparr>
     # year_loop projection currentTotalValue 1
         (currentTotalValue, map (\<lambda>t. Fin 0) (targets projection), Fin 0)"

section \<open>Inputs of the worked examples\<close>

text \<open>
  The parameters of the example of the specification: a starting value of 10,000,000,
  an initial rate of 4, both guardrails at 20, no expected return and no volatility.
\<close>

definition example_params :: WithdrawalParams where
  "example_params = \<lparr> initialRate = Fin 4, upperGuardrail = Fin 20, lowerGuardrail = Fin 20,
      expectedAPY = Fin 0, volatility = Fin 0, simulations = 1, wyears = 5 \<rparr>"

text \<open>
  A year in which binary64 rounding decides the guardrail: a starting value of 1000, an
  initial rate of 36, guardrails 25 and 25 and a return of 25%. The rate of the year is
  360 / 800 = 0.45, which is the upper threshold 0.36 * 1.25 in exact arithmetic; the
  code computes the threshold below it, \<open>0.44999999999999996\<close>.
\<close>

definition tie_params :: WithdrawalParams where
  "tie_params = \<lparr> initialRate = Fin 36, upperGuardrail = Fin 25, lowerGuardrail = Fin 25,
      expectedAPY = Fin 25, volatility = Fin 0, simulations = 1, wyears = 1 \<rparr>"

text \<open>
  A pair of draws \<open>(u1, u2)\<close> of \<open>Math.random()\<close> with \<open>u1\<close> not zero: \<open>u1\<close> is a positive
  binary64 number below 1, so at least \<open>2^-1074\<close>, and \<open>u2\<close> is in \<open>[0, 1)\<close>.
\<close>

definition positive_draw :: "real \<times> real \<Rightarrow> bool" where
  "positive_draw d = (p2 (- 1074) \<le> fst d \<and> fst d < 1 \<and> 0 \<le> snd d \<and> snd d < 1)"

text \<open>A source of draws that always returns \<open>1/2\<close>, and one that always returns \<open>0\<close>.\<close>

definition half_draws :: "nat \<Rightarrow> real \<times> real" where
  "half_draws y = (1 / 2, 1 / 2)"

definition zero_draws :: "nat \<Rightarrow> real \<times> real" where
  "zero_draws y = (0, 0)"

text \<open>
  The application's initial guardrails with an expected return of 5 and no volatility, and
  the example with both guardrails at 1,000,000.
\<close>

definition growth_params :: WithdrawalParams where
  "growth_params = \<lparr> initialRate = Fin 4, upperGuardrail = Fin 20,
      lowerGuardrail = Fin 20, expectedAPY = Fin 5, volatility = Fin 0,
      simulations = 1, wyears = 2 \<rparr>"

definition wide_params :: WithdrawalParams where
  "wide_params = \<lparr> initialRate = Fin 4, upperGuardrail = Fin 1000000,
      lowerGuardrail = Fin 1000000, expectedAPY = Fin 0, volatility = Fin 0,
      simulations = 1, wyears = 1 \<rparr>"

text \<open>
  Names for the quantities of year \<open>i + 1\<close> of a run: the return sampled for a year, the
  balance after the withdrawal of the year, and that neither guardrail comparison of the
  year holds.
\<close>

definition sampled_return :: "WithdrawalParams \<Rightarrow> (nat \<Rightarrow> real \<times> real) \<Rightarrow> nat \<Rightarrow> jsnum" where
  "sampled_return p draws y =
     generateRandomReturn (expectedAPY p / Fin 100) (volatility p / Fin 100) (draws y)"

definition balance_after_withdrawal ::
  "jsnum \<Rightarrow> WithdrawalParams \<Rightarrow> (nat \<Rightarrow> real \<times> real) \<Rightarrow> nat \<Rightarrow> jsnum" where
  "balance_after_withdrawal sv p draws i =
     (case gk_state sv p draws i of (pv, w) \<Rightarrow> pv - w)"

definition guardrails_idle ::
  "jsnum \<Rightarrow> WithdrawalParams \<Rightarrow> (nat \<Rightarrow> real \<times> real) \<Rightarrow> nat \<Rightarrow> bool" where
  "guardrails_idle sv p draws i =
     (case gk_state sv p draws i of (pv, w) \<Rightarrow>
        (let currentRate = w / ((pv - w) * (Fin 1 + sampled_return p draws (Suc i)))
         in \<not> currentRate > initialRate p / Fin 100 * (Fin 1 + upperGuardrail p / Fin 100) \<and>
            \<not> currentRate < initialRate p / Fin 100 * (Fin 1 - lowerGuardrail p / Fin 100)))"

text \<open>
  Batches for the statistics: runs of one record each, with final balances 200 and 100,
  and 200, 0 and 100.
\<close>

definition final_record :: "jsnum \<Rightarrow> WithdrawalResult" where
  "final_record v = \<lparr> wyear = 1, portfolioValue = v, withdrawalAmount = Fin 4,
      withdrawalRate = Fin 4, returnRate = Fin 0, inflationAdjusted = False,
      guardrailTriggered = None \<rparr>"

definition two_runs :: "WithdrawalResult list list" where
  "two_runs = [[final_record (Fin 200)], [final_record (Fin 100)]]"

definition three_runs :: "WithdrawalResult list list" where
  "three_runs = [[final_record (Fin 200)], [final_record (Fin 0)], [final_record (Fin 100)]]"

text \<open>
  Projections: a starting value of 1000.5 growing at 12% a year for one year with no
  contribution strategy, and the parameters the application starts with.
\<close>

definition interest_params :: ProjectionParams where
  "interest_params = \<lparr> initialReturnRate = Fin 12, years = 1, targets = [] \<rparr>"

definition default_projection :: ProjectionParams where
  "default_projection = \<lparr> initialReturnRate = Fin 6, years = 10,
      targets = [\<lparr> target_id = ''1'', target_name = '''', monthlyAmount = Fin 3000,
                   returnRate = Fin 20 \<rparr>] \<rparr>"

text \<open>
  Conditions on the inputs of a projection: every number supplied is finite (the code
  does not check it and leaves it to the caller); the starting value and every monthly
  amount are whole numbers.
\<close>

fun whole :: "jsnum \<Rightarrow> bool" where
  "whole (Fin x) = (of_int \<lfloor>x\<rfloor> = x)"
| "whole _ = False"

definition finite_inputs :: "jsnum \<Rightarrow> ProjectionParams \<Rightarrow> bool" where
  "finite_inputs currentTotalValue projection =
     (isFinite currentTotalValue \<and> isFinite (initialReturnRate projection) \<and>
      list_all (\<lambda>t. isFinite (monthlyAmount t) \<and> isFinite (returnRate t))
        (targets projection))"

definition whole_contributions :: "jsnum \<Rightarrow> ProjectionParams \<Rightarrow> bool" where
  "whole_contributions currentTotalValue projection =
     (whole currentTotalValue \<and> list_all (\<lambda>t. whole (monthlyAmount t)) (targets projection))"

text \<open>
  A state of the projection loop whose numbers are all finite and whose array has one
  entry for each target.
\<close>

definition finite_state :: "nat \<Rightarrow> jsnum \<times> jsnum list \<times> jsnum \<Rightarrow> bool" where
  "finite_state n s =
     (case s of (v, tv, pnt) \<Rightarrow> isFinite v \<and> length tv = n \<and> list_all isFinite tv \<and> isFinite pnt)"

section \<open>Properties of binary64 rounding\<close>

text \<open>Powers of two and the binary exponent.\<close>

lemma p2_powr: "p2 e = 2 powr (real_of_int e)"
proof (cases "0 \<le> e")
  case True
  then have "2 powr (real_of_int e) = (2::real) ^ nat e"
    by (metis of_int_of_nat_eq nat_0_le powr_realpow zero_less_numeral of_nat_nat)
  with True show ?thesis by (simp add: p2_def)
next
  case False
  then have "real_of_int e = - real (nat (- e))" by simp
  then have "2 powr (real_of_int e) = 1 / (2::real) ^ nat (- e)"
    by (simp add: powr_minus powr_realpow inverse_eq_divide del: of_nat_nat)
  with False show ?thesis by (simp add: p2_def)
qed

lemma p2_pos [simp]: "0 < p2 e"
  by (simp add: p2_powr)

lemma p2_add: "p2 (a + b) = p2 a * p2 b"
  by (simp add: p2_powr powr_add)

lemma p2_diff: "p2 (a - b) = p2 a / p2 b"
  by (simp add: p2_powr powr_diff)

lemma p2_mono: "a \<le> b \<Longrightarrow> p2 a \<le> p2 b"
  by (simp add: p2_powr)

lemma p2_less: "p2 a < p2 b \<longleftrightarrow> a < b"
  by (simp add: p2_powr)

lemma p2_le: "p2 a \<le> p2 b \<longleftrightarrow> a \<le> b"
  by (simp add: p2_powr)

lemma p2_0 [simp]: "p2 0 = 1"
  by (simp add: p2_def)

lemma p2_1 [simp]: "p2 1 = 2"
  by (simp add: p2_def)

lemma p2_Suc: "p2 (e + 1) = 2 * p2 e"
  by (simp add: p2_add)

lemma expo_up_bounds:
  "1 \<le> x \<Longrightarrow> e \<le> 1023 \<Longrightarrow>
     e \<le> expo_up x e \<and> expo_up x e \<le> 1023 \<and> p2 (expo_up x e - e) \<le> x \<and>
     (expo_up x e < 1023 \<longrightarrow> x < p2 (expo_up x e - e + 1))"
proof (induction x e rule: expo_up.induct)
  case (1 x e)
  show ?case
  proof (cases "x < 2 \<or> 1023 \<le> e")
    case True
    then have "expo_up x e = e" by (simp add: expo_up.simps)
    with True "1.prems" show ?thesis by auto
  next
    case False
    then have eq: "expo_up x e = expo_up (x / 2) (e + 1)" by (subst expo_up.simps) simp
    from False "1.prems" have "1 \<le> x / 2" "e + 1 \<le> 1023" by simp_all
    from "1.IH" [OF False this]
    have ih: "e + 1 \<le> expo_up x e" "expo_up x e \<le> 1023"
        "p2 (expo_up x e - (e + 1)) \<le> x / 2"
        "expo_up x e < 1023 \<longrightarrow> x / 2 < p2 (expo_up x e - (e + 1) + 1)"
      by (simp_all add: eq)
    have a: "p2 (expo_up x e - e) = 2 * p2 (expo_up x e - (e + 1))"
      using p2_Suc [of "expo_up x e - (e + 1)"] by (simp add: algebra_simps)
    have b: "p2 (expo_up x e - e + 1) = 2 * p2 (expo_up x e - (e + 1) + 1)"
      using p2_Suc [of "expo_up x e - (e + 1) + 1"] by (simp add: algebra_simps)
    show ?thesis using ih a b by auto
  qed
qed

lemma expo_down_bounds:
  "0 < x \<Longrightarrow> x < 2 \<Longrightarrow> - 1022 \<le> e \<Longrightarrow>
     - 1022 \<le> expo_down x e \<and> expo_down x e \<le> e \<and> x < p2 (expo_down x e - e + 1) \<and>
     (- 1022 < expo_down x e \<longrightarrow> p2 (expo_down x e - e) \<le> x)"
proof (induction x e rule: expo_down.induct)
  case (1 x e)
  show ?case
  proof (cases "1 \<le> x \<or> e \<le> - 1022")
    case True
    then have "expo_down x e = e" by (simp add: expo_down.simps)
    with True "1.prems" show ?thesis by auto
  next
    case False
    then have eq: "expo_down x e = expo_down (x * 2) (e - 1)" by (subst expo_down.simps) simp
    from False "1.prems" have "0 < x * 2" "x * 2 < 2" "- 1022 \<le> e - 1" by simp_all
    from "1.IH" [OF False this]
    have ih: "- 1022 \<le> expo_down x e" "expo_down x e \<le> e - 1"
        "x * 2 < p2 (expo_down x e - (e - 1) + 1)"
        "- 1022 < expo_down x e \<longrightarrow> p2 (expo_down x e - (e - 1)) \<le> x * 2"
      by (simp_all add: eq)
    have a: "p2 (expo_down x e - (e - 1)) = 2 * p2 (expo_down x e - e)"
      using p2_Suc [of "expo_down x e - e"] by (simp add: algebra_simps)
    have b: "p2 (expo_down x e - (e - 1) + 1) = 2 * p2 (expo_down x e - e + 1)"
      using p2_Suc [of "expo_down x e - e + 1"] by (simp add: algebra_simps)
    show ?thesis using ih a b by auto
  qed
qed

lemma expo_range: "- 1022 \<le> expo x" "expo x \<le> 1023"
proof -
  have "- 1022 \<le> expo x \<and> expo x \<le> 1023"
  proof (cases "1 \<le> \<bar>x\<bar>")
    case True
    with expo_up_bounds [of "\<bar>x\<bar>" 0] show ?thesis by (simp add: expo_def)
  next
    case False
    show ?thesis
    proof (cases "x = 0")
      case True
      have "\<And>e. - 1022 \<le> e \<Longrightarrow> - 1022 \<le> expo_down 0 e \<and> expo_down 0 e \<le> e"
      proof -
        fix e :: int
        show "- 1022 \<le> e \<Longrightarrow> - 1022 \<le> expo_down 0 e \<and> expo_down 0 e \<le> e"
        proof (induction "0 :: real" e rule: expo_down.induct)
          case (1 e)
          show ?case
          proof (cases "e \<le> - 1022")
            case True
            then show ?thesis using "1.prems" by (simp add: expo_down.simps)
          next
            case False
            then have "expo_down 0 e = expo_down 0 (e - 1)" by (subst expo_down.simps) simp
            with "1.hyps" [of] False "1.prems" show ?thesis by simp
          qed
        qed
      qed
      from this [of 0] True show ?thesis by (simp add: expo_def)
    next
      case nz: False
      with False expo_down_bounds [of "\<bar>x\<bar>" 0] show ?thesis by (simp add: expo_def)
    qed
  qed
  then show "- 1022 \<le> expo x" "expo x \<le> 1023" by simp_all
qed

lemma expo_upper: "x \<noteq> 0 \<Longrightarrow> expo x < 1023 \<Longrightarrow> \<bar>x\<bar> < p2 (expo x + 1)"
proof (cases "1 \<le> \<bar>x\<bar>")
  case True
  assume "expo x < 1023"
  with True expo_up_bounds [of "\<bar>x\<bar>" 0] show ?thesis by (simp add: expo_def)
next
  case False
  assume "x \<noteq> 0"
  with False expo_down_bounds [of "\<bar>x\<bar>" 0] show ?thesis by (simp add: expo_def)
qed

lemma expo_lower: "- 1022 < expo x \<or> p2 (- 1022) \<le> \<bar>x\<bar> \<Longrightarrow> p2 (expo x) \<le> \<bar>x\<bar>"
proof (cases "1 \<le> \<bar>x\<bar>")
  case True
  with expo_up_bounds [of "\<bar>x\<bar>" 0] show ?thesis by (simp add: expo_def)
next
  case False
  assume a: "- 1022 < expo x \<or> p2 (- 1022) \<le> \<bar>x\<bar>"
  then have nz: "x \<noteq> 0"
  proof
    assume "- 1022 < expo x"
    show ?thesis
    proof
      assume "x = 0"
      then have "expo x = expo_down 0 0" by (simp add: expo_def)
      moreover have "\<And>e. - 1022 \<le> e \<Longrightarrow> expo_down 0 e = - 1022"
      proof -
        fix e :: int
        show "- 1022 \<le> e \<Longrightarrow> expo_down 0 e = - 1022"
        proof (induction "0 :: real" e rule: expo_down.induct)
          case (1 e)
          show ?case
          proof (cases "e \<le> - 1022")
            case True
            then show ?thesis using "1.prems" by (simp add: expo_down.simps)
          next
            case False
            then have "expo_down 0 e = expo_down 0 (e - 1)" by (subst expo_down.simps) simp
            with "1.hyps" False "1.prems" show ?thesis by simp
          qed
        qed
      qed
      ultimately show False using \<open>- 1022 < expo x\<close> by simp
    qed
  next
    assume "p2 (- 1022) \<le> \<bar>x\<bar>"
    then have "0 < \<bar>x\<bar>" using p2_pos [of "- 1022"] by linarith
    then show ?thesis by simp
  qed
  from nz False expo_down_bounds [of "\<bar>x\<bar>" 0]
  have b: "- 1022 \<le> expo x" "- 1022 < expo x \<longrightarrow> p2 (expo x) \<le> \<bar>x\<bar>"
    by (simp_all add: expo_def)
  show ?thesis
  proof (cases "- 1022 < expo x")
    case True
    with b show ?thesis by simp
  next
    case False
    with b(1) have "expo x = - 1022" by simp
    with a False show ?thesis by simp
  qed
qed

lemma expo_le: "x \<noteq> 0 \<Longrightarrow> \<bar>x\<bar> < p2 (k + 1) \<Longrightarrow> - 1022 \<le> k \<Longrightarrow> expo x \<le> k"
proof (rule ccontr)
  assume a: "x \<noteq> 0" "\<bar>x\<bar> < p2 (k + 1)" "- 1022 \<le> k" "\<not> expo x \<le> k"
  then have "- 1022 < expo x" by simp
  then have "p2 (expo x) \<le> \<bar>x\<bar>" by (simp add: expo_lower)
  with a(2) have "p2 (expo x) < p2 (k + 1)" by simp
  then have "expo x < k + 1" by (simp add: p2_less)
  with a(4) show False by simp
qed

lemma expo_ge: "p2 k \<le> \<bar>x\<bar> \<Longrightarrow> k \<le> 1023 \<Longrightarrow> k \<le> expo x"
proof (rule ccontr)
  assume a: "p2 k \<le> \<bar>x\<bar>" "k \<le> 1023" "\<not> k \<le> expo x"
  then have "expo x < 1023" by simp
  moreover have "0 < \<bar>x\<bar>" using a(1) p2_pos [of k] by linarith
  then have "x \<noteq> 0" by simp
  moreover note this
  ultimately have "\<bar>x\<bar> < p2 (expo x + 1)" by (simp add: expo_upper)
  with a(1) have "p2 k < p2 (expo x + 1)" by simp
  then have "k < expo x + 1" by (simp add: p2_less)
  with a(3) show False by simp
qed

lemma rne_error: "\<bar>of_int (rne y) - y\<bar> \<le> 1 / 2"
  unfolding rne_def rne_from_def by (auto simp: abs_if) linarith+

lemma rne_of_int [simp]: "rne (of_int n) = n"
  by (simp add: rne_def rne_from_def)

lemma rne_ge: "of_int n \<le> y \<Longrightarrow> n \<le> rne y"
proof -
  assume a: "of_int n \<le> y"
  then have "n \<le> \<lfloor>y\<rfloor>" by (simp add: le_floor_iff)
  moreover have "\<lfloor>y\<rfloor> \<le> rne y" by (simp add: rne_def rne_from_def)
  ultimately show ?thesis by simp
qed

lemma rne_le: "y \<le> of_int n \<Longrightarrow> rne y \<le> n"
proof -
  assume a: "y \<le> of_int n"
  show ?thesis
  proof (cases "y = of_int n")
    case True
    then show ?thesis by simp
  next
    case False
    with a have "y < of_int n" by simp
    then have "\<lfloor>y\<rfloor> < n" by (simp add: floor_less_iff)
    moreover have "rne y \<le> \<lfloor>y\<rfloor> + 1" by (simp add: rne_def rne_from_def)
    ultimately show ?thesis by simp
  qed
qed

lemma ulp_pos [simp]: "0 < ulp x"
  by (simp add: ulp_def)

lemma ulp_nonneg [simp]: "0 \<le> ulp x"
  using ulp_pos [of x] by linarith

lemma ulp_neq_0 [simp]: "ulp x \<noteq> 0"
  using ulp_pos [of x] by linarith

lemma ulp_upper: "ulp x \<le> p2 971"
  using expo_range(2) [of x] by (simp add: ulp_def p2_le)

lemma ulp_lower: "p2 (- 1074) \<le> ulp x"
  using expo_range(1) [of x] by (simp add: ulp_def p2_le)

lemma fl_nonzero: "x \<noteq> 0 \<Longrightarrow> fl x = pack x (of_int (rne (x / ulp x)) * ulp x)"
  by (simp add: fl_def round_to_def)

lemma fl_not_NaN [simp]: "fl x \<noteq> NaN"
  by (simp add: fl_def round_to_def pack_def)

lemma fl_nonneg:
  assumes "0 \<le> x"
  shows "fl x = PInf \<or> (\<exists>y\<ge>0. fl x = Fin y)"
proof (cases "x = 0")
  case True
  then show ?thesis by (simp add: fl_def)
next
  case False
  with assms have "0 < x" by simp
  then have "0 \<le> x / ulp x" by (simp add: less_imp_le)
  then have "0 \<le> rne (x / ulp x)" using rne_ge [of 0 "x / ulp x"] by simp
  then have "0 \<le> of_int (rne (x / ulp x)) * ulp x" by simp
  with \<open>0 < x\<close> show ?thesis by (auto simp: fl_nonzero [OF False] pack_def)
qed

lemma fl_Fin_bound: "fl x = Fin y \<Longrightarrow> \<bar>y\<bar> < p2 1024"
  by (auto simp: fl_def round_to_def pack_def split: if_splits)

text \<open>The rounding error is at most half an ulp; no overflow below 2^1023.\<close>

lemma fl_error:
  assumes "x \<noteq> 0" "\<bar>x\<bar> < p2 (k + 1)" "- 1022 \<le> k" "k \<le> 1022"
  shows "isFinite (fl x) \<and> \<bar>rv (fl x) - x\<bar> \<le> p2 (k - 53)"
proof -
  let ?u = "ulp x"
  let ?y = "of_int (rne (x / ?u)) * ?u"
  have e: "expo x \<le> k" using assms(1-3) by (rule expo_le)
  then have u: "?u \<le> p2 (k - 52)" by (simp add: ulp_def p2_le)
  have "\<bar>of_int (rne (x / ?u)) - x / ?u\<bar> \<le> 1 / 2" by (rule rne_error)
  then have "\<bar>of_int (rne (x / ?u)) - x / ?u\<bar> * ?u \<le> 1 / 2 * ?u"
    by (intro mult_right_mono) simp_all
  moreover have "\<bar>of_int (rne (x / ?u)) - x / ?u\<bar> * ?u = \<bar>?y - x\<bar>"
  proof -
    have "\<bar>of_int (rne (x / ?u)) - x / ?u\<bar> * ?u = \<bar>(of_int (rne (x / ?u)) - x / ?u) * ?u\<bar>"
      by (simp add: abs_mult)
    also have "(of_int (rne (x / ?u)) - x / ?u) * ?u = ?y - x"
      by (simp add: algebra_simps)
    finally show ?thesis .
  qed
  ultimately have err: "\<bar>?y - x\<bar> \<le> ?u / 2" by simp
  have half: "p2 (k - 52) / 2 = p2 (k - 53)"
    using p2_Suc [of "k - 53"] by (simp add: algebra_simps)
  from err u half have err': "\<bar>?y - x\<bar> \<le> p2 (k - 53)" by linarith
  have "p2 (k - 53) \<le> p2 969" using assms(4) by (simp add: p2_le)
  moreover have "p2 (k + 1) \<le> p2 1023" using assms(4) by (simp add: p2_le)
  moreover have "p2 1023 + p2 969 < p2 1024" by (simp add: p2_def)
  ultimately have "\<bar>?y\<bar> < p2 1024" using err' assms(2) by linarith
  then have "fl x = (if ?y = 0 then (if x < 0 then NZero else Fin 0) else Fin ?y)"
    by (simp add: fl_nonzero [OF assms(1)] pack_def)
  then have "isFinite (fl x)" "rv (fl x) = ?y" by (auto split: if_splits)
  with err' show ?thesis by simp
qed

text \<open>A whole number below 2^53 is a binary64 number.\<close>

lemma fl_of_int:
  assumes "\<bar>n\<bar> < 2 ^ 53"
  shows "fl (of_int n) = Fin (of_int n)"
proof (cases "n = 0")
  case True
  then show ?thesis by (simp add: fl_def)
next
  case False
  let ?x = "real_of_int n"
  have nz: "?x \<noteq> 0" using False by simp
  have "\<bar>?x\<bar> < p2 (52 + 1)" using assms by (simp add: p2_def)
  then have "expo ?x \<le> 52" using nz by (intro expo_le) simp_all
  then obtain j where j: "expo ?x - 52 = - int j"
    by (metis add.inverse_inverse diff_le_0_iff_le nonpos_int_cases)
  have u: "ulp ?x = 1 / 2 ^ j"
  proof (cases "j = 0")
    case True
    then show ?thesis using j by (simp add: ulp_def)
  next
    case False
    then show ?thesis using j by (simp add: ulp_def p2_def)
  qed
  have "?x / ulp ?x = of_int (n * 2 ^ j)" by (simp add: u)
  then have "rne (?x / ulp ?x) = n * 2 ^ j" by (simp only: rne_of_int)
  then have y: "of_int (rne (?x / ulp ?x)) * ulp ?x = ?x" by (simp add: u)
  have "\<bar>?x\<bar> < p2 1024"
  proof -
    have "\<bar>?x\<bar> < p2 53" using \<open>\<bar>?x\<bar> < p2 (52 + 1)\<close> by simp
    moreover have "p2 53 \<le> p2 1024" by (simp add: p2_le)
    ultimately show ?thesis by linarith
  qed
  then show ?thesis using nz by (simp add: fl_nonzero [OF nz] y pack_def)
qed

text \<open>A result of at least 2^-1074 does not round to zero.\<close>

lemma fl_positive:
  assumes "p2 (- 1074) \<le> x"
  shows "Fin 0 < fl x"
proof -
  have pos: "0 < x" using assms p2_pos [of "- 1074"] by linarith
  then have nz: "x \<noteq> 0" by simp
  have "ulp x \<le> x"
  proof (cases "p2 (- 1022) \<le> \<bar>x\<bar>")
    case True
    then have "p2 (expo x) \<le> \<bar>x\<bar>" by (simp add: expo_lower)
    moreover have "ulp x \<le> p2 (expo x)" by (simp add: ulp_def p2_le)
    ultimately show ?thesis using pos by simp
  next
    case False
    have "expo x = - 1022"
    proof (rule antisym)
      have "p2 (- 1022) \<le> p2 (- 1022 + 1)" by (simp add: p2_le)
      with False have "\<bar>x\<bar> < p2 (- 1022 + 1)" by linarith
      with nz show "expo x \<le> - 1022" by (intro expo_le) simp_all
      show "- 1022 \<le> expo x" by (rule expo_range)
    qed
    then have "ulp x = p2 (- 1074)" by (simp add: ulp_def)
    with assms show ?thesis by simp
  qed
  then have "1 \<le> x / ulp x" by (simp add: le_divide_eq)
  then have "1 \<le> rne (x / ulp x)" using rne_ge [of 1 "x / ulp x"] by simp
  then have "1 \<le> real_of_int (rne (x / ulp x))" by simp
  then have "0 < of_int (rne (x / ulp x)) * ulp x" by (intro mult_pos_pos) simp_all
  with pos show ?thesis
    by (auto simp: fl_nonzero [OF nz] pack_def less_jsnum_def)
qed

lemma p2_nonneg [simp]: "0 \<le> p2 e"
  using p2_pos [of e] by linarith

lemma p2_int: "0 \<le> j \<Longrightarrow> p2 j = of_int (2 ^ nat j)"
  by (simp add: p2_def)

text \<open>A multiple of a power of two that is no finer than the grid at its size is binary64.\<close>

lemma fl_grid:
  assumes "y = of_int n * p2 k" "expo y - 52 \<le> k" "\<bar>y\<bar> < p2 1024"
  shows "fl y = Fin y"
proof (cases "y = 0")
  case True
  then show ?thesis by (simp add: fl_def)
next
  case False
  define j where "j = k - (expo y - 52)"
  have j: "0 \<le> j" using assms(2) by (simp add: j_def)
  have "p2 k = p2 j * ulp y" by (simp add: j_def ulp_def p2_add [symmetric])
  then have yk: "y = of_int (n * 2 ^ nat j) * ulp y"
    using assms(1) by (simp add: p2_int [OF j])
  have "y / ulp y = of_int (n * 2 ^ nat j)"
    by (subst yk) simp
  then have "rne (y / ulp y) = n * 2 ^ nat j" by (simp only: rne_of_int)
  then have "of_int (rne (y / ulp y)) * ulp y = y" using yk by simp
  then show ?thesis using False assms(3) by (simp add: fl_nonzero [OF False] pack_def)
qed

text \<open>The parts of a rounded result.\<close>

lemma fl_Fin_parts:
  assumes "fl x = Fin y" "x \<noteq> 0"
  shows "y = of_int (rne (x / ulp x)) * ulp x" "\<bar>y\<bar> < p2 1024"
  using assms by (auto simp: fl_nonzero pack_def split: if_splits)

lemma rne_abs_le: "\<bar>y\<bar> \<le> of_int n \<Longrightarrow> \<bar>rne y\<bar> \<le> n"
proof -
  assume a: "\<bar>y\<bar> \<le> of_int n"
  then have "y \<le> of_int n" "of_int (- n) \<le> y" by simp_all
  then have "rne y \<le> n" "- n \<le> rne y" by (auto intro: rne_le rne_ge)
  then show ?thesis by simp
qed

lemma rne_abs_ge: "of_int n \<le> \<bar>y\<bar> \<Longrightarrow> n \<le> \<bar>rne y\<bar>"
proof (cases "0 \<le> y")
  case True
  assume "of_int n \<le> \<bar>y\<bar>"
  with True have "n \<le> rne y" by (intro rne_ge) simp
  then show ?thesis by simp
next
  case False
  assume "of_int n \<le> \<bar>y\<bar>"
  with False have "y \<le> of_int (- n)" by simp
  then have "rne y \<le> - n" by (rule rne_le)
  then show ?thesis by simp
qed

text \<open>Rounding is idempotent: a rounded result is a binary64 number.\<close>

lemma fl_idem:
  assumes "fl x = Fin y"
  shows "fl y = Fin y"
proof (cases "x = 0")
  case True
  with assms show ?thesis by (simp add: fl_def)
next
  case False
  define e where "e = expo x"
  define n where "n = rne (x / ulp x)"
  have u: "ulp x = p2 (e - 52)" by (simp add: ulp_def e_def)
  have y: "y = of_int n * p2 (e - 52)" and fin: "\<bar>y\<bar> < p2 1024"
    using fl_Fin_parts [OF assms False] by (simp_all add: n_def u)
  have er: "- 1022 \<le> e" "e \<le> 1023" using expo_range [of x] by (simp_all add: e_def)
  have le: "\<bar>y\<bar> \<le> p2 (e + 1)"
  proof (cases "e < 1023")
    case True
    then have "\<bar>x\<bar> < p2 (e + 1)" using expo_upper [OF False] by (simp add: e_def)
    moreover have "p2 (e + 1) = of_int (2 ^ 53) * ulp x"
    proof -
      have "e + 1 = 53 + (e - 52)" by simp
      then have "p2 (e + 1) = p2 (53 + (e - 52))" by (rule arg_cong)
      also have "\<dots> = p2 53 * p2 (e - 52)" by (rule p2_add)
      also have "p2 53 = of_int (2 ^ 53)" by (simp add: p2_def)
      finally show ?thesis by (simp add: u)
    qed
    ultimately have "\<bar>x / ulp x\<bar> \<le> of_int (2 ^ 53)"
      by (simp add: abs_divide pos_divide_le_eq del: of_int_power of_int_numeral)
    then have "\<bar>n\<bar> \<le> 2 ^ 53" unfolding n_def by (rule rne_abs_le)
    then have "real_of_int \<bar>n\<bar> \<le> of_int (2 ^ 53)" by (simp only: of_int_le_iff)
    then have "\<bar>real_of_int n\<bar> \<le> 2 ^ 53" by simp
    then have "\<bar>real_of_int n\<bar> * p2 (e - 52) \<le> 2 ^ 53 * p2 (e - 52)"
      by (intro mult_right_mono) simp_all
    moreover have "\<bar>y\<bar> = \<bar>real_of_int n\<bar> * p2 (e - 52)"
      by (simp add: y abs_mult)
    ultimately show ?thesis
      using \<open>p2 (e + 1) = of_int (2 ^ 53) * ulp x\<close> by (simp add: u)
  next
    case False
    with er have "e = 1023" by simp
    with fin show ?thesis by simp
  qed
  show ?thesis
  proof (cases "\<bar>y\<bar> = p2 (e + 1)")
    case True
    then have e1: "e + 1 \<le> 1023" using fin by (simp add: p2_less)
    have "e + 1 \<le> expo y" using True e1 by (intro expo_ge) simp_all
    moreover have "y \<noteq> 0"
    proof
      assume "y = 0"
      with True have "p2 (e + 1) = 0" by simp
      with p2_pos [of "e + 1"] show False by simp
    qed
    then have "expo y \<le> e + 1"
      using True er e1 by (intro expo_le) (simp_all add: p2_less)
    ultimately have ey: "expo y = e + 1" by simp
    have rep: "y = of_int (if 0 \<le> y then 1 else - 1) * p2 (e + 1)" using True by auto
    show ?thesis by (rule fl_grid [OF rep _ fin]) (simp add: ey)
  next
    case ne: False
    show ?thesis
    proof (cases "y = 0")
      case True
      then show ?thesis by (simp add: fl_def)
    next
      case False
      from ne le have "\<bar>y\<bar> < p2 (e + 1)" by simp
      then have "expo y \<le> e" using False er by (intro expo_le)
      then show ?thesis using y fin by (intro fl_grid [of y n "e - 52"]) simp_all
    qed
  qed
qed

lemma binary64_0 [simp]: "binary64 0"
  by (simp add: binary64_def fl_def)

lemma binary64_fl: "fl x = Fin y \<Longrightarrow> binary64 y"
  by (simp add: binary64_def fl_idem)

lemma binary64_range: "binary64 x \<Longrightarrow> \<bar>x\<bar> < p2 1024"
  by (simp add: binary64_def fl_Fin_bound)

lemma binary64_ulp:
  assumes "binary64 x"
  shows "\<exists>m. x = of_int m * ulp x"
proof (cases "x = 0")
  case True
  then have "x = of_int 0 * ulp x" by simp
  then show ?thesis by blast
next
  case False
  from assms have "fl x = Fin x" by (simp add: binary64_def)
  from fl_Fin_parts(1) [OF this False] show ?thesis by blast
qed

text \<open>Every binary64 number is a multiple of the smallest one, 2^-1074.\<close>

lemma binary64_multiple:
  assumes "binary64 x"
  shows "\<exists>k. x = of_int k * p2 (- 1074)"
proof -
  from binary64_ulp [OF assms] obtain m where m: "x = of_int m * ulp x" by blast
  define j where "j = expo x + 1022"
  have j: "0 \<le> j" using expo_range(1) [of x] by (simp add: j_def)
  have "ulp x = p2 j * p2 (- 1074)" by (simp add: ulp_def j_def p2_add [symmetric])
  with m have "x = of_int (m * 2 ^ nat j) * p2 (- 1074)" by (simp add: p2_int [OF j])
  then show ?thesis by blast
qed

lemma binary64_uminus: "binary64 x \<Longrightarrow> binary64 (- x)"
proof -
  assume a: "binary64 x"
  from binary64_ulp [OF a] obtain m where m: "x = of_int m * ulp x" by blast
  have e: "expo (- x) = expo x" by (simp add: expo_def)
  have r: "\<bar>- x\<bar> < p2 1024" using binary64_range [OF a] by simp
  have rep: "- x = of_int (- m) * p2 (expo x - 52)" using m by (simp add: ulp_def)
  have "fl (- x) = Fin (- x)"
    by (rule fl_grid [OF rep _ r]) (simp add: e)
  then show ?thesis by (simp add: binary64_def)
qed

text \<open>An exact result that is not positive does not round to a positive number.\<close>

lemma fl_nonpos:
  assumes "x \<le> 0"
  shows "\<not> Fin 0 < fl x"
proof (cases "x = 0")
  case True
  then show ?thesis by (simp add: fl_def less_jsnum_def)
next
  case False
  with assms have neg: "x < 0" by simp
  then have "x / ulp x \<le> of_int 0" by (simp add: divide_le_0_iff less_imp_le)
  then have "rne (x / ulp x) \<le> 0" by (rule rne_le)
  then have "real_of_int (rne (x / ulp x)) \<le> 0" by simp
  then have "of_int (rne (x / ulp x)) * ulp x \<le> 0"
    by (simp add: mult_le_0_iff)
  with neg show ?thesis
    by (auto simp: fl_nonzero [OF False] pack_def less_jsnum_def)
qed

text \<open>
  Rounding does not go below a positive number of the grid: a multiple of a power of two
  that is no finer than the grid at \<open>x\<close>.
\<close>

lemma fl_lower:
  assumes "of_int m * p2 k \<le> x" "expo x - 52 \<le> k" "0 < m"
  shows "fl x = PInf \<or> (\<exists>y. fl x = Fin y \<and> of_int m * p2 k \<le> y)"
proof -
  define j where "j = k - (expo x - 52)"
  have j: "0 \<le> j" using assms(2) by (simp add: j_def)
  have pk: "p2 k = p2 j * ulp x" by (simp add: j_def ulp_def p2_add [symmetric])
  have c: "of_int m * p2 k = of_int (m * 2 ^ nat j) * ulp x"
    by (simp add: pk p2_int [OF j])
  have cpos: "0 < of_int m * p2 k" using assms(3) by simp
  with assms(1) have pos: "0 < x" by linarith
  then have nz: "x \<noteq> 0" by simp
  have "of_int (m * 2 ^ nat j) \<le> x / ulp x"
    using assms(1) unfolding c by (simp add: pos_le_divide_eq del: of_int_mult of_int_power)
  then have "m * 2 ^ nat j \<le> rne (x / ulp x)" by (rule rne_ge)
  then have "real_of_int (m * 2 ^ nat j) \<le> of_int (rne (x / ulp x))"
    by (simp only: of_int_le_iff)
  then have "of_int (m * 2 ^ nat j) * ulp x \<le> of_int (rne (x / ulp x)) * ulp x"
    by (intro mult_right_mono) simp_all
  then have "of_int m * p2 k \<le> of_int (rne (x / ulp x)) * ulp x" unfolding c .
  with cpos pos show ?thesis
    by (auto simp: fl_nonzero [OF nz] pack_def)
qed

section \<open>Evaluating the arithmetic, and the loop of a run\<close>

lemma Let_value:
  "Let (Fin x) f = f (Fin x)" "Let NZero f = f NZero" "Let PInf f = f PInf"
  "Let NInf f = f NInf" "Let NaN f = f NaN" "Let True g = g True" "Let False g = g False"
  "Let (a, b) h = h (a, b)"
  by (simp_all add: Let_def)

lemmas js_eval = plus_jsnum_def minus_jsnum_def times_jsnum_def divide_jsnum_def
  less_jsnum_def less_eq_jsnum_def zero_of_def inf_of_def fl_def round_to_def pack_def
  ulp_def expo_def expo_up.simps expo_down.simps p2_def rne_def rne_from_def Math_max_def
  Let_value

lemma isFinite_cases: "isFinite a \<Longrightarrow> a = NZero \<or> (\<exists>x. a = Fin x)"
  by (cases a) simp_all

lemma times_finite:
  assumes "isFinite a" "isFinite b" "\<bar>rv a * rv b\<bar> < p2 1023"
  shows "isFinite (a * b)"
proof (cases "is_zero a \<or> is_zero b")
  case True
  with assms(1,2) show ?thesis
    by (cases a; cases b) (auto simp: times_jsnum_def zero_of_def)
next
  case False
  then have nz: "rv a * rv b \<noteq> 0" using assms(1,2) by (cases a; cases b) auto
  have "isFinite (fl (rv a * rv b))"
    using fl_error [OF nz, of 1022] assms(3) by simp
  moreover have "a * b = fl (rv a * rv b)"
    using False assms(1,2) by (cases a; cases b) (auto simp: times_jsnum_def)
  ultimately show ?thesis by simp
qed

lemma times_zero_right: "isFinite a \<Longrightarrow> is_zero (a * Fin 0)"
  by (cases a) (auto simp: times_jsnum_def zero_of_def)

lemma plus_zero_right: "is_zero b \<Longrightarrow> Fin m + b = Fin m"
  by (cases b) (auto simp: plus_jsnum_def zero_of_def)

lemma half_draws_positive [simp]: "positive_draw (half_draws y)"
  by (simp add: positive_draw_def half_draws_def p2_def)

lemma two_pi: "Fin 2 * Math_PI = Fin (884279719003555 / 140737488355328)"
  by (simp add: Math_PI_def js_eval)

text \<open>
  With no volatility, a first draw that is a positive binary64 number below 1 and a second
  draw in \<open>[0, 1)\<close>, the sampled return is the mean.
\<close>

lemma generateRandomReturn_no_volatility:
  assumes "positive_draw d"
  shows "generateRandomReturn (Fin m) (Fin 0) d = Fin m"
proof -
  from assms have assms: "p2 (- 1074) \<le> fst d" "fst d < 1" "0 \<le> snd d" "snd d < 1"
    by (simp_all add: positive_draw_def)
  let ?u1 = "fst d" and ?u2 = "snd d"
  have u1: "0 < ?u1" using assms(1) p2_pos [of "- 1074"] by linarith
  have ln_neg: "ln ?u1 < 0" using u1 assms(2) by simp
  have "ln (p2 (- 1074)) \<le> ln ?u1" using assms(1) u1 by (intro ln_mono) simp_all
  moreover have "ln (p2 (- 1074)) = - 1074 * ln 2"
    by (simp add: p2_powr ln_powr)
  moreover have "ln (2::real) \<le> 1" using ln_le_minus_one [of "2::real"] by simp
  ultimately have ln_low: "- 1074 \<le> ln ?u1" by linarith
  let ?x = "- 2 * ln ?u1"
  have x: "0 < ?x" "?x \<le> 2148" using ln_neg ln_low by simp_all
  have "(2148::real) < p2 (11 + 1)" by (simp add: p2_def)
  with x have "\<bar>?x\<bar> < p2 (11 + 1)" by simp
  with x(1) have "isFinite (fl ?x)" using fl_error [of ?x 11] by simp
  moreover have "fl ?x = PInf \<or> (\<exists>y\<ge>0. fl ?x = Fin y)" using x(1) by (intro fl_nonneg) simp
  ultimately obtain y where y: "fl ?x = Fin y" "0 \<le> y" by auto
  have A: "Fin (- 2) * Math_log (Fin ?u1) = Fin y"
    using u1 ln_neg y(1) by (simp add: times_jsnum_def)
  have yb: "y < p2 1024" using fl_Fin_bound [OF y(1)] by simp
  have "sqrt y < sqrt (p2 1024)" using yb by simp
  moreover have "sqrt (p2 1024) = p2 512"
  proof -
    have "p2 1024 = p2 512 * p2 512" using p2_add [of 512 512] by simp
    then show ?thesis by (simp add: real_sqrt_mult)
  qed
  ultimately have sq: "0 \<le> sqrt y" "sqrt y < p2 512" using y(2) by simp_all
  have "isFinite (Fin 2 * Math_PI * Fin ?u2)"
    unfolding two_pi
  proof (rule times_finite)
    have "884279719003555 / 140737488355328 * ?u2 \<le> 884279719003555 / 140737488355328 * 1"
      using assms(4) by (intro mult_left_mono) simp_all
    moreover have "0 \<le> 884279719003555 / 140737488355328 * ?u2" using assms(3) by simp
    ultimately have "\<bar>884279719003555 / 140737488355328 * ?u2\<bar> < 8" by linarith
    moreover have "(8::real) \<le> p2 1023" using p2_mono [of 3 1023] by (simp add: p2_def)
    ultimately show "\<bar>rv (Fin (884279719003555 / 140737488355328)) * rv (Fin ?u2)\<bar> < p2 1023"
      by simp
  qed simp_all
  then obtain c where c: "Math_cos (Fin 2 * Math_PI * Fin ?u2) = Fin c" "\<bar>c\<bar> \<le> 1"
    by (cases "Fin 2 * Math_PI * Fin ?u2") auto
  have "isFinite (Fin (sqrt y) * Fin c)"
  proof (rule times_finite)
    have "\<bar>sqrt y\<bar> * \<bar>c\<bar> \<le> \<bar>sqrt y\<bar> * 1"
      using c(2) by (intro mult_left_mono) simp_all
    then have "\<bar>sqrt y * c\<bar> \<le> sqrt y" using sq(1) by (simp add: abs_mult)
    moreover have "p2 512 \<le> p2 1023" by (simp add: p2_le)
    ultimately show "\<bar>rv (Fin (sqrt y)) * rv (Fin c)\<bar> < p2 1023" using sq(2) by simp
  qed simp_all
  then have "is_zero (Fin (sqrt y) * Fin c * Fin 0)" by (rule times_zero_right)
  then have "Fin m + Fin (sqrt y) * Fin c * Fin 0 = Fin m" by (rule plus_zero_right)
  then show ?thesis
    using A c(1) y(2) by (simp add: generateRandomReturn_def Let_def)
qed

lemma gk_loop_length: "length (gk_loop p iwr n draws yr pv w) \<le> Suc n - yr"
proof (induction p iwr n draws yr pv w rule: gk_loop.induct)
  case (1 p iwr n draws yr pv w)
  show ?case
  proof (cases "yr \<le> n")
    case False
    then show ?thesis by (simp add: gk_loop.simps)
  next
    case True
    obtain res pv' w' where y: "gk_year p iwr yr (draws yr) pv w = (res, pv', w')"
      by (cases "gk_year p iwr yr (draws yr) pv w") auto
    show ?thesis
    proof (cases "pv' \<le> Fin 0")
      case True
      with \<open>yr \<le> n\<close> y show ?thesis by (simp add: gk_loop.simps [of p iwr n draws yr])
    next
      case False
      with 1 [OF \<open>yr \<le> n\<close> y [symmetric] refl] \<open>yr \<le> n\<close> y show ?thesis
        by (simp add: gk_loop.simps [of p iwr n draws yr])
    qed
  qed
qed

lemma gk_drop:
  "k < length (runGKSimulation sv p n draws) \<Longrightarrow>
     drop k (runGKSimulation sv p n draws) =
       gk_loop p (initialRate p / Fin 100) n draws (Suc k)
         (fst (gk_state sv p draws k)) (snd (gk_state sv p draws k))"
proof (induction k)
  case 0
  show ?case by (simp add: runGKSimulation_def)
next
  case (Suc k)
  let ?res = "runGKSimulation sv p n draws"
  let ?iwr = "initialRate p / Fin 100"
  obtain pv w where s: "gk_state sv p draws k = (pv, w)" by (cases "gk_state sv p draws k") auto
  obtain r pv' w' where y: "gk_year p ?iwr (Suc k) (draws (Suc k)) pv w = (r, pv', w')"
    by (cases "gk_year p ?iwr (Suc k) (draws (Suc k)) pv w") auto
  from Suc have d: "drop k ?res = gk_loop p ?iwr n draws (Suc k) pv w"
    by (simp add: s)
  from Suc.prems have "length (drop k ?res) \<ge> 2" by simp
  with d have l: "length (gk_loop p ?iwr n draws (Suc k) pv w) \<ge> 2" by simp
  have "Suc k \<le> n \<and> \<not> pv' \<le> Fin 0"
    using l y by (subst (asm) gk_loop.simps) (auto split: if_splits)
  then have "gk_loop p ?iwr n draws (Suc k) pv w = r # gk_loop p ?iwr n draws (Suc (Suc k)) pv' w'"
    using y by (subst gk_loop.simps) simp
  with d have "drop (Suc k) ?res = gk_loop p ?iwr n draws (Suc (Suc k)) pv' w'"
    by (metis drop_Suc tl_drop list.sel(3))
  then show ?case using s y by simp
qed

lemma gk_nth:
  assumes "k < length (runGKSimulation sv p n draws)"
  shows "runGKSimulation sv p n draws ! k =
           fst (gk_year p (initialRate p / Fin 100) (Suc k) (draws (Suc k))
                  (fst (gk_state sv p draws k)) (snd (gk_state sv p draws k)))"
    and "Suc k \<le> n"
proof -
  let ?res = "runGKSimulation sv p n draws"
  let ?L = "gk_loop p (initialRate p / Fin 100) n draws (Suc k)
         (fst (gk_state sv p draws k)) (snd (gk_state sv p draws k))"
  have d: "drop k ?res = ?L" using assms by (rule gk_drop)
  have ne: "?L \<noteq> []" using assms d by (metis drop_eq_Nil not_le)
  then show "Suc k \<le> n" by (subst (asm) gk_loop.simps) (auto split: if_splits)
  then have "hd ?L = fst (gk_year p (initialRate p / Fin 100) (Suc k) (draws (Suc k))
                  (fst (gk_state sv p draws k)) (snd (gk_state sv p draws k)))"
    by (subst gk_loop.simps) (simp split: prod.splits)
  moreover have "?res ! k = hd (drop k ?res)" using assms by (simp add: hd_drop_conv_nth)
  ultimately show "runGKSimulation sv p n draws ! k =
           fst (gk_year p (initialRate p / Fin 100) (Suc k) (draws (Suc k))
                  (fst (gk_state sv p draws k)) (snd (gk_state sv p draws k)))"
    using d by simp
qed

lemmas run_eval = runGKSimulation_def gk_loop.simps gk_year_def js_eval
  generateRandomReturn_no_volatility eval_nat_numeral

lemma example_run_any_draws:
  assumes "\<And>y. 1 \<le> y \<Longrightarrow> y \<le> 5 \<Longrightarrow> positive_draw (draws y)"
  shows "runGKSimulation (Fin 10000000) example_params 5 draws =
     [\<lparr>wyear = 1, portfolioValue = Fin 9600000, withdrawalAmount = Fin 400000,
        withdrawalRate = Fin (2345624805922133 / 562949953421312), returnRate = Fin 0,
        inflationAdjusted = False, guardrailTriggered = None\<rparr>,
      \<lparr>wyear = 2, portfolioValue = Fin 9200000, withdrawalAmount = Fin 400000,
        withdrawalRate = Fin (2447608493136139 / 562949953421312), returnRate = Fin 0,
        inflationAdjusted = False, guardrailTriggered = None\<rparr>,
      \<lparr>wyear = 3, portfolioValue = Fin 8800000, withdrawalAmount = Fin 400000,
        withdrawalRate = Fin (5117726849284655 / 1125899906842624), returnRate = Fin 0,
        inflationAdjusted = False, guardrailTriggered = None\<rparr>,
      \<lparr>wyear = 4, portfolioValue = Fin 8400000, withdrawalAmount = Fin 400000,
        withdrawalRate = Fin (5361428127822019 / 1125899906842624), returnRate = Fin 0,
        inflationAdjusted = False, guardrailTriggered = None\<rparr>,
      \<lparr>wyear = 5, portfolioValue = Fin 8000000, withdrawalAmount = Fin 400000,
        withdrawalRate = Fin 5, returnRate = Fin 0, inflationAdjusted = False,
        guardrailTriggered = Some Upper\<rparr>]"
proof -
  have d: "positive_draw (draws (Suc 0))" "positive_draw (draws (Suc (Suc 0)))"
      "positive_draw (draws (Suc (Suc (Suc 0))))"
      "positive_draw (draws (Suc (Suc (Suc (Suc 0)))))"
      "positive_draw (draws (Suc (Suc (Suc (Suc (Suc 0))))))"
    using assms [of "Suc 0"] assms [of "Suc (Suc 0)"] assms [of "Suc (Suc (Suc 0))"]
      assms [of "Suc (Suc (Suc (Suc 0)))"] assms [of "Suc (Suc (Suc (Suc (Suc 0))))"]
    by simp_all
  show ?thesis
    by (simp add: example_params_def run_eval d)
qed

lemma example_run:
  "runGKSimulation (Fin 10000000) example_params 5 half_draws =
     [\<lparr>wyear = 1, portfolioValue = Fin 9600000, withdrawalAmount = Fin 400000,
        withdrawalRate = Fin (2345624805922133 / 562949953421312), returnRate = Fin 0,
        inflationAdjusted = False, guardrailTriggered = None\<rparr>,
      \<lparr>wyear = 2, portfolioValue = Fin 9200000, withdrawalAmount = Fin 400000,
        withdrawalRate = Fin (2447608493136139 / 562949953421312), returnRate = Fin 0,
        inflationAdjusted = False, guardrailTriggered = None\<rparr>,
      \<lparr>wyear = 3, portfolioValue = Fin 8800000, withdrawalAmount = Fin 400000,
        withdrawalRate = Fin (5117726849284655 / 1125899906842624), returnRate = Fin 0,
        inflationAdjusted = False, guardrailTriggered = None\<rparr>,
      \<lparr>wyear = 4, portfolioValue = Fin 8400000, withdrawalAmount = Fin 400000,
        withdrawalRate = Fin (5361428127822019 / 1125899906842624), returnRate = Fin 0,
        inflationAdjusted = False, guardrailTriggered = None\<rparr>,
      \<lparr>wyear = 5, portfolioValue = Fin 8000000, withdrawalAmount = Fin 400000,
        withdrawalRate = Fin 5, returnRate = Fin 0, inflationAdjusted = False,
        guardrailTriggered = Some Upper\<rparr>]"
  by (rule example_run_any_draws) simp

text \<open>
  Claim C1. In year \<open>i + 1\<close> of a run, with \<open>(pv, w)\<close> the balance and the withdrawal on
  entry to the year, \<open>grown\<close> the balance after withdrawal and growth and
  \<open>currentRate = w / grown\<close>, all computed in binary64 as the code computes them: the
  record of the year carries \<open>w\<close>, the withdrawal just applied; the next withdrawal is
  \<open>w * 0.9\<close> with the upper flag if \<open>currentRate\<close> exceeds
  \<open>initialWithdrawalRate * (1 + upperGuardrail / 100)\<close>, else \<open>w * 1.1\<close> with the lower
  flag if \<open>currentRate\<close> is below \<open>initialWithdrawalRate * (1 - lowerGuardrail / 100)\<close>,
  else \<open>w * 1.03\<close> with the inflation flag if the balance gained in the year, else \<open>w\<close>
  with no flag; a guardrail flag and the inflation flag are never set together; and the
  next record, when there is one, carries that next withdrawal.
\<close>

theorem guardrail_priority_rule:
  assumes "i < length (runGKSimulation sv p n draws)"
  shows "let (pv, w) = gk_state sv p draws i;
             r = generateRandomReturn (expectedAPY p / Fin 100) (volatility p / Fin 100) (draws (Suc i));
             grown = (pv - w) * (Fin 1 + r);
             currentRate = w / grown;
             initialWithdrawalRate = initialRate p / Fin 100;
             rec = runGKSimulation sv p n draws ! i;
             next = snd (gk_state sv p draws (Suc i))
         in withdrawalAmount rec = w \<and>
            (if currentRate > initialWithdrawalRate * (Fin 1 + upperGuardrail p / Fin 100)
             then next = w * fl 0.9 \<and> guardrailTriggered rec = Some Upper \<and> \<not> inflationAdjusted rec
             else if currentRate < initialWithdrawalRate * (Fin 1 - lowerGuardrail p / Fin 100)
             then next = w * fl 1.1 \<and> guardrailTriggered rec = Some Lower \<and> \<not> inflationAdjusted rec
             else if grown > pv - w
             then next = w * fl 1.03 \<and> guardrailTriggered rec = None \<and> inflationAdjusted rec
             else next = w \<and> guardrailTriggered rec = None \<and> \<not> inflationAdjusted rec) \<and>
            \<not> (guardrailTriggered rec \<noteq> None \<and> inflationAdjusted rec) \<and>
            (Suc i < length (runGKSimulation sv p n draws) \<longrightarrow>
               withdrawalAmount (runGKSimulation sv p n draws ! Suc i) = next)"
proof -
  obtain pv w where s: "gk_state sv p draws i = (pv, w)" by (cases "gk_state sv p draws i") auto
  have a: "runGKSimulation sv p n draws ! i =
      fst (gk_year p (initialRate p / Fin 100) (Suc i) (draws (Suc i)) pv w)"
    using gk_nth(1) [OF assms] s by simp
  have b: "Suc i < length (runGKSimulation sv p n draws) \<Longrightarrow>
      withdrawalAmount (runGKSimulation sv p n draws ! Suc i) = snd (gk_state sv p draws (Suc i))"
    by (simp add: gk_nth(1) gk_year_def Let_def split: prod.splits if_splits)
  show ?thesis
    using b by (simp add: a s gk_year_def Let_def)
qed

text \<open>
  The year of \<open>tie_params\<close>: the rate 0.45 exceeds the computed threshold, the upper
  guardrail fires and the next withdrawal is 360 * 0.9 = 324.
\<close>

lemma tie_run:
  "runGKSimulation (Fin 1000) tie_params (Suc 0) half_draws =
     [\<lparr>wyear = Suc 0, portfolioValue = Fin 800, withdrawalAmount = Fin 360,
        withdrawalRate = Fin 45, returnRate = Fin 25, inflationAdjusted = False,
        guardrailTriggered = Some Upper\<rparr>]"
  by (simp add: tie_params_def run_eval)

lemma tie_states:
  "gk_state (Fin 1000) tie_params half_draws 0 = (Fin 1000, Fin 360)"
  "gk_state (Fin 1000) tie_params half_draws (Suc 0) = (Fin 800, Fin 324)"
  by (simp_all add: tie_params_def gk_year_def js_eval generateRandomReturn_no_volatility)

theorem guardrail_priority_rule_witness:
  "0 < length (runGKSimulation (Fin 1000) tie_params (Suc 0) half_draws) \<and>
   withdrawalAmount (runGKSimulation (Fin 1000) tie_params (Suc 0) half_draws ! 0) = Fin 360 \<and>
   guardrailTriggered (runGKSimulation (Fin 1000) tie_params (Suc 0) half_draws ! 0) = Some Upper \<and>
   snd (gk_state (Fin 1000) tie_params half_draws (Suc 0)) = Fin 324"
proof -
  have l: "0 < length (runGKSimulation (Fin 1000) tie_params (Suc 0) half_draws)"
    by (simp add: tie_run)
  show ?thesis
    using l guardrail_priority_rule [OF l]
    by (simp add: tie_states tie_run del: gk_state.simps)
qed

text \<open>
  Claim C2, as the code behaves. For the example of the specification (starting value
  10,000,000, initial rate 4, guardrails 20 and 20, no expected return, no volatility, 5
  years) and draws of \<open>Math.random()\<close> whose first component is not 0, every sampled
  return is 0, the withdrawal applied is 400,000 in each of the five years, the inflation
  flag is never set, the balance falls by 400,000 a year to 8,000,000, and no guardrail
  fires in years 1 to 4; in year 5 the rate is 400,000 / 8,000,000 = 5%, above the
  threshold 4% * 1.2, and the upper guardrail fires.
\<close>

theorem example_run_year_five_guardrail:
  assumes "\<forall>y\<in>{1..5}. positive_draw (draws y)"
  shows "runGKSimulation (Fin 10000000) example_params 5 draws =
     [\<lparr>wyear = 1, portfolioValue = Fin 9600000, withdrawalAmount = Fin 400000,
        withdrawalRate = Fin (2345624805922133 / 562949953421312), returnRate = Fin 0,
        inflationAdjusted = False, guardrailTriggered = None\<rparr>,
      \<lparr>wyear = 2, portfolioValue = Fin 9200000, withdrawalAmount = Fin 400000,
        withdrawalRate = Fin (2447608493136139 / 562949953421312), returnRate = Fin 0,
        inflationAdjusted = False, guardrailTriggered = None\<rparr>,
      \<lparr>wyear = 3, portfolioValue = Fin 8800000, withdrawalAmount = Fin 400000,
        withdrawalRate = Fin (5117726849284655 / 1125899906842624), returnRate = Fin 0,
        inflationAdjusted = False, guardrailTriggered = None\<rparr>,
      \<lparr>wyear = 4, portfolioValue = Fin 8400000, withdrawalAmount = Fin 400000,
        withdrawalRate = Fin (5361428127822019 / 1125899906842624), returnRate = Fin 0,
        inflationAdjusted = False, guardrailTriggered = None\<rparr>,
      \<lparr>wyear = 5, portfolioValue = Fin 8000000, withdrawalAmount = Fin 400000,
        withdrawalRate = Fin 5, returnRate = Fin 0, inflationAdjusted = False,
        guardrailTriggered = Some Upper\<rparr>]"
  using assms by (intro example_run_any_draws) simp

theorem example_run_year_five_guardrail_witness:
  "map withdrawalAmount (runGKSimulation (Fin 10000000) example_params 5 half_draws) =
     [Fin 400000, Fin 400000, Fin 400000, Fin 400000, Fin 400000] \<and>
   map inflationAdjusted (runGKSimulation (Fin 10000000) example_params 5 half_draws) =
     [False, False, False, False, False] \<and>
   map guardrailTriggered (runGKSimulation (Fin 10000000) example_params 5 half_draws) =
     [None, None, None, None, Some Upper] \<and>
   map portfolioValue (runGKSimulation (Fin 10000000) example_params 5 half_draws) =
     [Fin 9600000, Fin 9200000, Fin 8800000, Fin 8400000, Fin 8000000]"
proof -
  have h: "\<forall>y\<in>{1..5}. positive_draw (half_draws y)" by simp
  show ?thesis
    using example_run_year_five_guardrail [OF h] by simp
qed

text \<open>
  The claim that no guardrail fires in any year of the example fails in year 5.
\<close>

theorem example_run_fires_upper_guardrail:
  "guardrailTriggered (runGKSimulation (Fin 10000000) example_params 5 half_draws ! 4)
     = Some Upper"
  unfolding example_run by simp

lemma gk_nth_withdrawal:
  assumes "i < length (runGKSimulation sv p n draws)"
  shows "withdrawalAmount (runGKSimulation sv p n draws ! i) = snd (gk_state sv p draws i)"
  using gk_nth(1) [OF assms]
  by (simp add: gk_year_def Let_def split: prod.splits if_splits)

lemma gk_year_next_cases:
  "snd (snd (gk_year p iwr yr d pv w)) = w * fl 0.9 \<or>
   snd (snd (gk_year p iwr yr d pv w)) = w * fl 1.1 \<or>
   snd (snd (gk_year p iwr yr d pv w)) = w * fl 1.03 \<or>
   snd (snd (gk_year p iwr yr d pv w)) = w"
  by (simp add: gk_year_def Let_def)

lemma times_nonneg:
  assumes "a = PInf \<or> (\<exists>x\<ge>0. a = Fin x)" "0 < c"
  shows "a * Fin c = PInf \<or> (\<exists>x\<ge>0. a * Fin c = Fin x)"
proof (cases "a = PInf")
  case True
  then show ?thesis using assms(2) by (simp add: times_jsnum_def inf_of_def)
next
  case False show ?thesis
  proof -
    from False assms(1) obtain x where x: "a = Fin x" "0 \<le> x" by blast
    show ?thesis
    proof (cases "x = 0")
      case True
      then show ?thesis using x assms(2) by (simp add: times_jsnum_def zero_of_def)
    next
      case False
      then have "a * Fin c = fl (x * c)" using x assms(2) by (simp add: times_jsnum_def)
      moreover have "0 \<le> x * c" using x(2) assms(2) by simp
      ultimately show ?thesis using fl_nonneg [of "x * c"] by simp
    qed
  qed
qed

lemma times_Fin_nonneg:
  assumes "0 \<le> s" "0 \<le> x"
  shows "Fin s * Fin x = PInf \<or> (\<exists>y\<ge>0. Fin s * Fin x = Fin y)"
proof (cases "s = 0 \<or> x = 0")
  case True
  then show ?thesis using assms by (auto simp: times_jsnum_def zero_of_def)
next
  case False
  then have "Fin s * Fin x = fl (s * x)" by (simp add: times_jsnum_def)
  moreover have "0 \<le> s * x" using assms by simp
  ultimately show ?thesis using fl_nonneg [of "s * x"] by simp
qed

lemma percent_nonneg:
  assumes "0 \<le> a" "a < p2 1024"
  shows "\<exists>x\<ge>0. Fin a / Fin 100 = Fin x"
proof (cases "a = 0")
  case True
  then show ?thesis by (simp add: divide_jsnum_def zero_of_def)
next
  case False
  then have nz: "a / 100 \<noteq> 0" by simp
  have "p2 1024 = 2 * p2 1023" using p2_Suc [of 1023] by simp
  then have "\<bar>a / 100\<bar> < p2 (1022 + 1)" using assms by simp
  then have "isFinite (fl (a / 100))" using fl_error [OF nz, of 1022] by simp
  moreover have "fl (a / 100) = PInf \<or> (\<exists>y\<ge>0. fl (a / 100) = Fin y)"
    using assms(1) by (intro fl_nonneg) simp
  moreover have "Fin a / Fin 100 = fl (a / 100)"
    using False by (simp add: divide_jsnum_def)
  ultimately show ?thesis by auto
qed

lemma literal_factors:
  "fl 0.9 = Fin (8106479329266893 / 9007199254740992)"
  "fl 1.1 = Fin (2476979795053773 / 2251799813685248)"
  "fl 1.03 = Fin (4638707616191611 / 4503599627370496)"
  by (simp_all add: js_eval)

lemma gk_year_next_nonneg:
  assumes "w = PInf \<or> (\<exists>x\<ge>0. w = Fin x)"
  shows "snd (snd (gk_year p iwr yr d pv w)) = PInf \<or>
         (\<exists>x\<ge>0. snd (snd (gk_year p iwr yr d pv w)) = Fin x)"
proof -
  have a: "w * fl 0.9 = PInf \<or> (\<exists>x\<ge>0. w * fl 0.9 = Fin x)"
    unfolding literal_factors by (rule times_nonneg [OF assms]) simp
  have b: "w * fl 1.1 = PInf \<or> (\<exists>x\<ge>0. w * fl 1.1 = Fin x)"
    unfolding literal_factors by (rule times_nonneg [OF assms]) simp
  have c: "w * fl 1.03 = PInf \<or> (\<exists>x\<ge>0. w * fl 1.03 = Fin x)"
    unfolding literal_factors by (rule times_nonneg [OF assms]) simp
  from gk_year_next_cases [of p iwr yr d pv w] show ?thesis
  proof (elim disjE)
    assume "snd (snd (gk_year p iwr yr d pv w)) = w * fl 0.9"
    then show ?thesis using a by simp
  next
    assume "snd (snd (gk_year p iwr yr d pv w)) = w * fl 1.1"
    then show ?thesis using b by simp
  next
    assume "snd (snd (gk_year p iwr yr d pv w)) = w * fl 1.03"
    then show ?thesis using c by simp
  next
    assume "snd (snd (gk_year p iwr yr d pv w)) = w"
    then show ?thesis using assms by simp
  qed
qed

lemma gk_state_withdrawal_nonneg:
  assumes "0 \<le> s" "0 \<le> a" "a < p2 1024" "initialRate p = Fin a"
  shows "snd (gk_state (Fin s) p draws k) = PInf \<or>
         (\<exists>x\<ge>0. snd (gk_state (Fin s) p draws k) = Fin x)"
proof (induction k)
  case 0
  from percent_nonneg [OF assms(2,3)] obtain x where x: "Fin a / Fin 100 = Fin x" "0 \<le> x"
    by blast
  from times_Fin_nonneg [OF assms(1) x(2)] show ?case using assms(4) x(1) by simp
next
  case (Suc k)
  obtain pv w where s: "gk_state (Fin s) p draws k = (pv, w)"
    by (cases "gk_state (Fin s) p draws k") auto
  with Suc have "w = PInf \<or> (\<exists>x\<ge>0. w = Fin x)" by simp
  from gk_year_next_nonneg [OF this] s show ?case by simp
qed

text \<open>
  Claim C10. In a run from a finite starting value \<open>s \<ge> 0\<close> with a finite initial rate
  \<open>a \<ge> 0\<close> (a binary64 number, so below \<open>2^1024\<close>), the withdrawal of every record is not
  negative, whatever the returns and the balance are: it is a finite number \<open>w \<ge> 0\<close>, or
  \<open>Infinity\<close> when a product has overflowed.
\<close>

theorem withdrawal_never_negative:
  assumes "0 \<le> s" "0 \<le> a" "a < p2 1024" "initialRate p = Fin a"
  shows "\<forall>x\<in>set (runGKSimulation (Fin s) p n draws).
           withdrawalAmount x = PInf \<or> (\<exists>w\<ge>0. withdrawalAmount x = Fin w)"
proof
  fix x assume "x \<in> set (runGKSimulation (Fin s) p n draws)"
  then obtain i where i: "i < length (runGKSimulation (Fin s) p n draws)"
      "x = runGKSimulation (Fin s) p n draws ! i"
    by (auto simp: in_set_conv_nth)
  show "withdrawalAmount x = PInf \<or> (\<exists>w\<ge>0. withdrawalAmount x = Fin w)"
    using gk_nth_withdrawal [OF i(1)] gk_state_withdrawal_nonneg [OF assms] i(2) by simp
qed

theorem withdrawal_never_negative_witness:
  "map withdrawalAmount (runGKSimulation (Fin 10000000) example_params 5 half_draws) =
     [Fin 400000, Fin 400000, Fin 400000, Fin 400000, Fin 400000]"
proof -
  have h: "(0::real) \<le> 10000000" "(0::real) \<le> 4" "(4::real) < p2 1024"
      "initialRate example_params = Fin 4"
    by (simp_all add: example_params_def p2_def)
  show ?thesis
    using withdrawal_never_negative [OF h, of 5 half_draws] by (simp add: example_run)
qed

text \<open>
  Claim C9. \<open>Math.random()\<close> may return \<open>0\<close>, and \<open>generateRandomReturn\<close> does not guard
  the logarithm: with the first draw \<open>0\<close> the sampled return is \<open>Infinity\<close> for the
  application's initial parameters (mean 7/100, deviation 15/100), and \<open>NaN\<close> when the
  deviation is 0.
\<close>

theorem sampler_not_finite_at_zero:
  "generateRandomReturn (Fin 7 / Fin 100) (Fin 15 / Fin 100) (0, 0) = PInf \<and>
   generateRandomReturn (Fin 7 / Fin 100) (Fin 0 / Fin 100) (0, 0) = NaN"
  by (simp add: generateRandomReturn_def Math_PI_def js_eval)

text \<open>
  A run is never longer than the horizon; a run shorter than the horizon ends with a
  record that reports 0; and a record that is not the last one reports a positive balance
  or \<open>NaN\<close>.
\<close>

lemma gk_loop_short:
  "length (gk_loop p iwr n draws yr pv w) < Suc n - yr \<Longrightarrow>
     gk_loop p iwr n draws yr pv w \<noteq> [] \<and>
     portfolioValue (last (gk_loop p iwr n draws yr pv w)) = Fin 0"
proof (induction p iwr n draws yr pv w rule: gk_loop.induct)
  case (1 p iwr n draws yr pv w)
  from "1.prems" have le: "yr \<le> n" by simp
  obtain res pv' w' where y: "gk_year p iwr yr (draws yr) pv w = (res, pv', w')"
    by (cases "gk_year p iwr yr (draws yr) pv w") auto
  have pvr: "portfolioValue res = Math_max (Fin 0) pv'"
    using y by (auto simp: gk_year_def Let_def split: if_splits)
  show ?case
  proof (cases "pv' \<le> Fin 0")
    case True
    then have "Math_max (Fin 0) pv' = Fin 0"
      by (cases pv') (simp_all add: Math_max_def less_jsnum_def less_eq_jsnum_def)
    with True le y pvr show ?thesis by (simp add: gk_loop.simps [of p iwr n draws yr])
  next
    case False
    have unf: "gk_loop p iwr n draws yr pv w = res # gk_loop p iwr n draws (Suc yr) pv' w'"
      using False le y by (simp add: gk_loop.simps [of p iwr n draws yr])
    with "1.prems" le have "length (gk_loop p iwr n draws (Suc yr) pv' w') < Suc n - Suc yr"
      by simp
    from "1.IH" [OF le y [symmetric] refl False this] unf show ?thesis by simp
  qed
qed

lemma run_stops_at_depletion:
  "length (runGKSimulation sv p n draws) \<le> n"
  "Suc i < length (runGKSimulation sv p n draws) \<Longrightarrow>
     portfolioValue (runGKSimulation sv p n draws ! i) > Fin 0 \<or>
     portfolioValue (runGKSimulation sv p n draws ! i) = NaN"
  "length (runGKSimulation sv p n draws) < n \<Longrightarrow>
     runGKSimulation sv p n draws \<noteq> [] \<and>
     portfolioValue (last (runGKSimulation sv p n draws)) = Fin 0"
proof -
  let ?res = "runGKSimulation sv p n draws"
  let ?iwr = "initialRate p / Fin 100"
  show "length ?res \<le> n"
    using gk_loop_length [of p ?iwr n draws 1] by (simp add: runGKSimulation_def)
  show "length ?res < n \<Longrightarrow> ?res \<noteq> [] \<and> portfolioValue (last ?res) = Fin 0"
    using gk_loop_short [of p ?iwr n draws 1] by (simp add: runGKSimulation_def)
  show "portfolioValue (?res ! i) > Fin 0 \<or> portfolioValue (?res ! i) = NaN"
    if l: "Suc i < length ?res"
  proof -
    obtain pv w where s: "gk_state sv p draws i = (pv, w)"
      by (cases "gk_state sv p draws i") auto
    obtain r pv' w' where y: "gk_year p ?iwr (Suc i) (draws (Suc i)) pv w = (r, pv', w')"
      by (cases "gk_year p ?iwr (Suc i) (draws (Suc i)) pv w") auto
    have i: "i < length ?res" using l by simp
    have d: "drop i ?res = gk_loop p ?iwr n draws (Suc i) pv w"
      using gk_drop [OF i] s by simp
    have "length (drop i ?res) \<ge> 2" using l by simp
    with d have "length (gk_loop p ?iwr n draws (Suc i) pv w) \<ge> 2" by simp
    then have np: "\<not> pv' \<le> Fin 0"
      using y by (subst (asm) gk_loop.simps) (auto split: if_splits)
    have "?res ! i = r" using gk_nth(1) [OF i] s y by simp
    moreover have "portfolioValue r = Math_max (Fin 0) pv'"
      using y by (auto simp: gk_year_def Let_def split: if_splits)
    moreover have "Math_max (Fin 0) pv' > Fin 0 \<or> Math_max (Fin 0) pv' = NaN"
      using np by (cases pv') (simp_all add: Math_max_def less_jsnum_def less_eq_jsnum_def)
    ultimately show ?thesis by simp
  qed
qed

text \<open>
  Claim C7. With no volatility and a first draw of \<open>0\<close> the sampled return is \<open>NaN\<close>, the
  balance becomes \<open>NaN\<close>, which is not \<open>\<le> 0\<close>, and the run goes on: its first record is
  not the last one and does not report a positive balance.
\<close>

theorem nan_run_keeps_going:
  "runGKSimulation (Fin 10000000) example_params 2 zero_draws =
     [\<lparr>wyear = 1, portfolioValue = NaN, withdrawalAmount = Fin 400000,
        withdrawalRate = NaN, returnRate = NaN, inflationAdjusted = False,
        guardrailTriggered = None\<rparr>,
      \<lparr>wyear = 2, portfolioValue = NaN, withdrawalAmount = Fin 400000,
        withdrawalRate = NaN, returnRate = NaN, inflationAdjusted = False,
        guardrailTriggered = None\<rparr>] \<and>
   \<not> portfolioValue (runGKSimulation (Fin 10000000) example_params 2 zero_draws ! 0) > Fin 0"
  by (simp add: runGKSimulation_def example_params_def zero_draws_def gk_loop.simps gk_year_def
      generateRandomReturn_def Math_PI_def js_eval eval_nat_numeral)

section \<open>Results of the arithmetic are binary64 numbers\<close>

lemma representable_fl [simp]: "representable (fl x)"
proof (cases "fl x")
  case (Fin y)
  then show ?thesis by (simp add: binary64_fl)
qed simp_all

lemma representable_zero_of [simp]: "representable (zero_of n)"
  by (simp add: zero_of_def)

lemma representable_inf_of [simp]: "representable (inf_of n)"
  by (simp add: inf_of_def)

lemma representable_uminus: "representable a \<Longrightarrow> representable (- a)"
  by (cases a) (simp_all add: binary64_uminus)

lemma representable_plus: "representable a \<Longrightarrow> representable b \<Longrightarrow> representable (a + b)"
  by (simp add: plus_jsnum_def)

lemma representable_minus: "representable a \<Longrightarrow> representable b \<Longrightarrow> representable (a - b)"
  by (simp add: minus_jsnum_def representable_plus representable_uminus)

lemma representable_times [simp]: "representable (a * b)"
  by (simp add: times_jsnum_def)

lemma representable_divide [simp]: "representable (a / b)"
  by (simp add: divide_jsnum_def)

lemma representable_max:
  "representable a \<Longrightarrow> representable b \<Longrightarrow> representable (Math_max a b)"
  by (simp add: Math_max_def)

text \<open>The balance that a record of a run reports is a number the engine can hold.\<close>

lemma run_portfolio_representable:
  assumes "i < length (runGKSimulation sv p n draws)"
  shows "representable (portfolioValue (runGKSimulation sv p n draws ! i))"
proof -
  obtain pv w where s: "gk_state sv p draws i = (pv, w)" by (cases "gk_state sv p draws i") auto
  show ?thesis
    using gk_nth(1) [OF assms] s
    by (simp add: gk_year_def Let_def representable_max split: prod.splits)
qed

lemma finalValue_cases:
  "finalValue sim = Fin 0 \<or> (sim \<noteq> [] \<and> finalValue sim = portfolioValue (last sim))"
  by (cases sim) (simp_all add: finalValue_def)

lemma finalValue_run_representable:
  "representable (finalValue (runGKSimulation sv p n draws))"
proof (cases "runGKSimulation sv p n draws = []")
  case True
  then show ?thesis by (simp add: finalValue_def)
next
  case False
  let ?run = "runGKSimulation sv p n draws"
  have "last ?run = ?run ! (length ?run - 1)" using False by (rule last_conv_nth)
  moreover have "length ?run - 1 < length ?run" using False by simp
  ultimately have "representable (portfolioValue (last ?run))"
    using run_portfolio_representable [of "length ?run - 1" sv p n draws] by simp
  then show ?thesis using finalValue_cases [of ?run] by auto
qed

section \<open>Statistics of a batch\<close>

text \<open>
  The comparator \<open>a - b\<close> is positive exactly when \<open>b < a\<close>: the difference of two binary64
  numbers is a multiple of \<open>2^-1074\<close> and does not round to zero unless it is zero.
\<close>

lemma fl_diff_positive:
  assumes "binary64 x" "binary64 y"
  shows "(Fin 0 < fl (x - y)) = (y < x)"
proof (cases "y < x")
  case True
  from binary64_multiple [OF assms(1)] binary64_multiple [OF assms(2)]
  obtain k l where kl: "x = of_int k * p2 (- 1074)" "y = of_int l * p2 (- 1074)" by blast
  then have d: "x - y = of_int (k - l) * p2 (- 1074)" by (simp add: algebra_simps)
  with True have "0 < real_of_int (k - l) * p2 (- 1074)" by simp
  moreover have "\<not> p2 (- 1074) < 0" by (simp add: not_less)
  ultimately have "0 < real_of_int (k - l)" by (simp add: zero_less_mult_iff)
  then have "1 \<le> k - l" by simp
  then have "1 \<le> real_of_int (k - l)" by (simp only: of_int_1_le_iff)
  then have "1 * p2 (- 1074) \<le> real_of_int (k - l) * p2 (- 1074)"
    by (intro mult_right_mono) simp_all
  then have "p2 (- 1074) \<le> x - y" using d by simp
  from fl_positive [OF this] True show ?thesis by simp
next
  case False
  then have "x - y \<le> 0" by simp
  from fl_nonpos [OF this] False show ?thesis by simp
qed

lemma cmp_positive:
  assumes "representable a" "representable b"
  shows "(a - b > Fin 0) = (b < a)"
proof (cases a)
  case a: (Fin x)
  show ?thesis
  proof (cases b)
    case b: (Fin y)
    have "(Fin 0 < fl (x - y)) = (y < x)"
      using assms a b by (intro fl_diff_positive) simp_all
    then show ?thesis
      using a b by (auto simp: minus_jsnum_def plus_jsnum_def less_jsnum_def zero_of_def)
  qed (use a in \<open>auto simp: minus_jsnum_def plus_jsnum_def less_jsnum_def zero_of_def\<close>)
next
  case NZero
  then show ?thesis
    by (cases b) (auto simp: minus_jsnum_def plus_jsnum_def less_jsnum_def zero_of_def)
next
  case PInf
  then show ?thesis
    by (cases b) (auto simp: minus_jsnum_def plus_jsnum_def less_jsnum_def zero_of_def)
next
  case NInf
  then show ?thesis
    by (cases b) (auto simp: minus_jsnum_def plus_jsnum_def less_jsnum_def zero_of_def)
next
  case NaN
  then show ?thesis
    by (cases b) (auto simp: minus_jsnum_def plus_jsnum_def less_jsnum_def zero_of_def)
qed

text \<open>
  On values that are not \<open>NaN\<close> the comparator orders by \<open>\<le>\<close>, a total order once \<open>-0\<close> is
  left out; the final value of a run is neither \<open>NaN\<close> nor \<open>-0\<close>; so the sorted array is
  the one ascending arrangement of the final values.
\<close>

lemma half_index: "nat \<lfloor>real n / 2\<rfloor> = n div 2"
  using floor_divide_of_nat_eq [of n 2, where ?'a = real] by simp

lemma finalValue_not_NaN: "finalValue sim \<noteq> NaN"
  by (simp add: finalValue_def truthy_def split: list.splits)

lemma finalValue_not_NZero: "finalValue sim \<noteq> NZero"
  by (simp add: finalValue_def truthy_def split: list.splits)

lemma jsnum_not_le: "a \<noteq> NaN \<Longrightarrow> b \<noteq> NaN \<Longrightarrow> (b < a) = (\<not> a \<le> (b::jsnum))"
  by (cases a; cases b) (auto simp: less_jsnum_def less_eq_jsnum_def)

lemma jsnum_le_total: "a \<noteq> NaN \<Longrightarrow> b \<noteq> NaN \<Longrightarrow> a \<le> b \<or> b \<le> (a::jsnum)"
  by (cases a; cases b) (auto simp: less_eq_jsnum_def)

lemma jsnum_le_trans: "a \<le> b \<Longrightarrow> b \<le> c \<Longrightarrow> a \<le> (c::jsnum)"
  by (cases a; cases b; cases c) (auto simp: less_eq_jsnum_def)

lemma jsnum_le_antisym:
  "a \<le> b \<Longrightarrow> b \<le> a \<Longrightarrow> a \<noteq> NZero \<Longrightarrow> b \<noteq> NZero \<Longrightarrow> a = (b::jsnum)"
  by (cases a; cases b) (auto simp: less_eq_jsnum_def)

lemma set_js_insert: "set (js_insert cmp x ys) = insert x (set ys)"
  by (induction ys) auto

lemma mset_js_insert: "mset (js_insert cmp x ys) = add_mset x (mset ys)"
  by (induction ys) auto

lemma mset_js_sort: "mset (js_sort cmp xs) = mset xs"
  by (induction xs) (simp_all add: js_sort_def mset_js_insert)

lemma set_js_sort: "set (js_sort cmp xs) = set xs"
  using mset_js_sort [of cmp xs] by (metis set_mset_mset)

lemma sorted_js_insert:
  assumes "x \<noteq> NaN" "representable x" "NaN \<notin> set ys" "\<forall>y\<in>set ys. representable y"
    "sorted_wrt (\<le>) ys"
  shows "sorted_wrt (\<le>) (js_insert (\<lambda>a b. a - b) x ys)"
  using assms(3-5)
proof (induction ys)
  case Nil
  show ?case by simp
next
  case (Cons y ys)
  have y: "y \<noteq> NaN" "NaN \<notin> set ys" "sorted_wrt (\<le>) ys" "\<forall>z\<in>set ys. y \<le> z"
      "representable y" "\<forall>z\<in>set ys. representable z"
    using Cons.prems by auto
  have c: "(x - y > Fin 0) = (\<not> x \<le> y)"
    using cmp_positive [OF assms(2) y(5)] jsnum_not_le [OF assms(1) y(1)] by simp
  show ?case
  proof (cases "x \<le> y")
    case True
    then have "\<forall>z\<in>set ys. x \<le> z" using y(4) by (auto intro: jsnum_le_trans)
    with True y c show ?thesis by simp
  next
    case False
    then have "y \<le> x" using jsnum_le_total [OF assms(1) y(1)] by auto
    moreover have "sorted_wrt (\<le>) (js_insert (\<lambda>a b. a - b) x ys)"
      using Cons.IH [OF y(2) y(6) y(3)] .
    ultimately show ?thesis using False y c by (simp add: set_js_insert)
  qed
qed

lemma sorted_js_sort:
  "NaN \<notin> set xs \<Longrightarrow> \<forall>x\<in>set xs. representable x \<Longrightarrow>
     sorted_wrt (\<le>) (js_sort (\<lambda>a b. a - b) xs)"
proof (induction xs)
  case Nil
  show ?case by (simp add: js_sort_def)
next
  case (Cons x xs)
  have x: "x \<noteq> NaN" "NaN \<notin> set xs" "representable x" "\<forall>z\<in>set xs. representable z"
    using Cons.prems by auto
  have s: "NaN \<notin> set (js_sort (\<lambda>a b. a - b) xs)"
      "\<forall>z\<in>set (js_sort (\<lambda>a b. a - b) xs). representable z"
    using x(2,4) by (simp_all add: set_js_sort)
  from sorted_js_insert [OF x(1,3) s Cons.IH [OF x(2,4)]]
  show ?case by (simp add: js_sort_def)
qed

lemma sorted_jsnum_unique:
  "sorted_wrt (\<le>) xs \<Longrightarrow> sorted_wrt (\<le>) ys \<Longrightarrow> mset xs = mset ys \<Longrightarrow> NZero \<notin> set xs \<Longrightarrow>
     xs = (ys :: jsnum list)"
proof (induction xs arbitrary: ys)
  case Nil
  then show ?case by simp
next
  case (Cons x xs)
  then obtain y ys' where ys: "ys = y # ys'" by (cases ys) auto
  have sets: "set ys = set (x # xs)" using Cons.prems(3) by (metis set_mset_mset)
  have nz: "x \<noteq> NZero" "y \<noteq> NZero" using Cons.prems(4) sets ys by auto
  have "x \<in> set ys" using sets by simp
  then have yx: "y = x \<or> y \<le> x" using Cons.prems(2) ys by auto
  have "y \<in> set ys" using ys by simp
  then have "y \<in> set (x # xs)" using sets by blast
  then have xy: "x = y \<or> x \<le> y" using Cons.prems(1) by auto
  from xy yx nz have e: "x = y" by (auto intro: jsnum_le_antisym)
  with Cons.prems ys have "xs = ys'" by (intro Cons.IH) auto
  with e ys show ?case by simp
qed

text \<open>
  Claim C3, as the code behaves. For a batch that is not empty, the median final value is
  the element at index \<open>floor(n / 2)\<close> of the final values arranged in ascending order.
  That index is the upper median position: for an even number of runs it is the position
  after the lower median. The final values are numbers the engine can hold, as those of
  the runs of \<open>runGKSimulation\<close> are.
\<close>

theorem median_is_upper_middle_element:
  assumes "sims \<noteq> []"
    and "\<forall>sim\<in>set sims. representable (finalValue sim)"
    and "mset zs = mset (map finalValue sims)"
    and "sorted_wrt (\<le>) zs"
  shows "calculateMedianFinal sims = Some (zs ! upper_median_index (length sims)) \<and>
         upper_median_index (length sims) = length sims div 2 \<and>
         (even (length sims) \<longrightarrow>
            upper_median_index (length sims) = Suc (lower_median_index (length sims)))"
proof -
  let ?fv = "map finalValue sims"
  let ?s = "js_sort (\<lambda>a b. a - b) ?fv"
  have n: "NaN \<notin> set ?fv" "NZero \<notin> set ?fv"
    using finalValue_not_NaN finalValue_not_NZero by (auto simp: image_iff) metis+
  have r: "\<forall>x\<in>set ?fv. representable x" using assms(2) by simp
  have "sorted_wrt (\<le>) ?s" using n(1) r by (rule sorted_js_sort)
  moreover have "mset ?s = mset zs" using assms(3) by (simp add: mset_js_sort)
  moreover have "NZero \<notin> set ?s" using n(2) by (simp only: set_js_sort) simp
  ultimately have e: "?s = zs" using assms(4) by (intro sorted_jsnum_unique)
  have l: "length zs = length sims" using assms(3) by (metis length_map size_mset)
  have "length sims div 2 < length sims" using assms(1) by (cases sims) auto
  then have "calculateMedianFinal sims = Some (zs ! (length sims div 2))"
    using e l by (simp add: calculateMedianFinal_def finalValues_def js_index_def half_index)
  moreover have "even (length sims) \<Longrightarrow> length sims div 2 = Suc ((length sims - 1) div 2)"
    using assms(1) by (cases sims) (auto elim!: evenE)
  ultimately show ?thesis by (simp add: upper_median_index_def lower_median_index_def)
qed

lemma two_runs_values: "map finalValue two_runs = [Fin 200, Fin 100]"
  by (simp add: two_runs_def final_record_def finalValue_def truthy_def)

lemma two_runs_sorted: "finalValues two_runs = [Fin 100, Fin 200]"
  by (simp add: finalValues_def two_runs_values js_sort_def js_eval)

lemma binary64_200: "binary64 200" "binary64 100"
  by (simp_all add: binary64_def js_eval)

theorem median_is_upper_middle_element_witness:
  "calculateMedianFinal two_runs = Some (Fin 200) \<and>
   upper_median_index (length two_runs) = 1 \<and> lower_median_index (length two_runs) = 0"
proof -
  have a: "two_runs \<noteq> []" by (simp add: two_runs_def)
  have r: "\<forall>sim\<in>set two_runs. representable (finalValue sim)"
    using two_runs_values binary64_200 by (simp add: two_runs_def)
  have b: "mset [Fin 100, Fin 200] = mset (map finalValue two_runs)"
    by (simp add: two_runs_values)
  have c: "sorted_wrt (\<le>) [Fin 100, Fin 200]" by (simp add: less_eq_jsnum_def)
  show ?thesis
    using median_is_upper_middle_element [OF a r b c]
    by (simp add: two_runs_def upper_median_index_def lower_median_index_def)
qed

text \<open>
  For two runs with final values 200 and 100 the statistic is 200; the lower median of
  100 and 200 is 100.
\<close>

theorem median_is_not_lower_median:
  "calculateMedianFinal two_runs = Some (Fin 200) \<and>
   finalValues two_runs ! lower_median_index (length two_runs) = Fin 100"
  by (simp add: calculateMedianFinal_def js_index_def two_runs_sorted lower_median_index_def)
    (simp add: two_runs_def)

end
